theory Spec2Isabelle
  imports Main "HOL-Library.AList"
begin

section \<open>The object store of core.c\<close>

text \<open>
  Every value of the interpreter is an \<^verbatim>\<open>Object *\<close>. Two objects are static
  (\<^verbatim>\<open>Nil\<close> and \<^verbatim>\<open>True\<close>), all others come from \<^verbatim>\<open>new_object\<close>
  (\<^verbatim>\<open>malloc\<close>) and are never freed. A pointer is therefore \<^verbatim>\<open>NULL\<close>, one of
  the two static objects, or the number of an allocation; the heap is the list of
  the allocated objects, in allocation order. No call of \<^verbatim>\<open>new_object\<close> in
  core.c passes \<^verbatim>\<open>OT_NIL\<close> or \<^verbatim>\<open>OT_TRUE\<close>, so allocated objects carry
  one of the five other tags.
\<close>

datatype ptr = Null | NilP | TrueP | Ref nat

datatype ObjectType =
  OT_INT | OT_SYMBOL | OT_CONS | OT_NIL | OT_TRUE | OT_PRIMITIVE | OT_FUNCTION

text \<open>The function pointers that \<^verbatim>\<open>env_init\<close> registers, one per primitive.\<close>

datatype primitive =
  P_and | P_car | P_cdr | P_cons | P_define | P_defun | P_eq | P_gt | P_if | P_lt
  | P_lambda | P_minus | P_multi | P_obj_eq | P_or | P_plus | P_println | P_progn
  | P_setcar | P_quote | P_while

text \<open>
  An allocated object with the fields its tag uses: \<^verbatim>\<open>value\<close> (a C \<^verbatim>\<open>int\<close>, kept
  as an integer in the 32-bit signed range), \<^verbatim>\<open>name\<close>, \<^verbatim>\<open>car\<close>/\<^verbatim>\<open>cdr\<close>,
  \<^verbatim>\<open>function\<close>, and \<^verbatim>\<open>params\<close>/\<^verbatim>\<open>body\<close>.
\<close>

datatype obj =
  OInt int
  | OSymbol string
  | OCons ptr ptr
  | OPrimitive primitive
  | OFunction ptr ptr

text \<open>
  How a run ends without a value: \<^verbatim>\<open>err\<close> (and the undefined-symbol branch of
  \<^verbatim>\<open>env_lookup\<close>) print a message and call \<^verbatim>\<open>exit(1)\<close>; \<open>Undefined\<close> stands
  for behaviour C leaves undefined (a dereference of \<^verbatim>\<open>NULL\<close>, a read of a field
  that the object's tag does not have, a read of an uninitialised local);
  \<open>OutOfFuel\<close> says that the bound on loop iterations and nesting given to the
  model was reached, so nothing is known about the run.
\<close>

datatype error = Exit string | Undefined | OutOfFuel

text \<open>
  Modelled from the spec: the hash table of a frame (\<^verbatim>\<open>ht_create\<close>,
  \<^verbatim>\<open>ht_insert\<close>, \<^verbatim>\<open>ht_lookup\<close> are declared in core.h and defined outside
  core.c). Section 4.2 of the spec describes it as a mapping from names to values
  with insert-or-overwrite; it is kept as an association list with at most one
  entry per name.
\<close>

record frame =
  ht :: "(string \<times> ptr) list"
  parent :: "nat option"

record state =
  heap :: "obj list"
  envs :: "frame list"
  out :: string

definition bnd :: "error + 'a \<Rightarrow> ('a \<Rightarrow> error + 'b) \<Rightarrow> error + 'b" where
  "bnd m f = (case m of Inl e \<Rightarrow> Inl e | Inr x \<Rightarrow> f x)"

definition err :: "string \<Rightarrow> error + 'a" where
  "err msg = Inl (Exit msg)"

definition int32 :: "int \<Rightarrow> int" where
  "int32 x = (x + 2147483648) mod 4294967296 - 2147483648"

definition deref :: "state \<Rightarrow> ptr \<Rightarrow> obj option" where
  "deref s p =
     (case p of
        Ref a \<Rightarrow> (if a < length (heap s) then Some (heap s ! a) else None)
      | _ \<Rightarrow> None)"

definition otype :: "state \<Rightarrow> ptr \<Rightarrow> error + ObjectType" where
  "otype s p =
     (case p of
        Null \<Rightarrow> Inl Undefined
      | NilP \<Rightarrow> Inr OT_NIL
      | TrueP \<Rightarrow> Inr OT_TRUE
      | Ref a \<Rightarrow>
          (case deref s p of
             None \<Rightarrow> Inl Undefined
           | Some (OInt v) \<Rightarrow> Inr OT_INT
           | Some (OSymbol nm) \<Rightarrow> Inr OT_SYMBOL
           | Some (OCons a d) \<Rightarrow> Inr OT_CONS
           | Some (OPrimitive f) \<Rightarrow> Inr OT_PRIMITIVE
           | Some (OFunction ps b) \<Rightarrow> Inr OT_FUNCTION))"

text \<open>
  \<^verbatim>\<open>o->car\<close> and \<^verbatim>\<open>o->cdr\<close>. The two static objects \<^verbatim>\<open>Nil\<close> and \<^verbatim>\<open>True\<close> are
  initialised with their tag only, so their other members are zero: \<^verbatim>\<open>Nil->car\<close>
  and \<^verbatim>\<open>Nil->cdr\<close> are \<^verbatim>\<open>NULL\<close>. For an object of the heap that is not a cell, and
  for \<^verbatim>\<open>NULL\<close>, the read is undefined.
\<close>

definition get_car :: "state \<Rightarrow> ptr \<Rightarrow> error + ptr" where
  "get_car s p =
     (case p of
        NilP \<Rightarrow> Inr Null
      | TrueP \<Rightarrow> Inr Null
      | _ \<Rightarrow> (case deref s p of Some (OCons a d) \<Rightarrow> Inr a | _ \<Rightarrow> Inl Undefined))"

definition get_cdr :: "state \<Rightarrow> ptr \<Rightarrow> error + ptr" where
  "get_cdr s p =
     (case p of
        NilP \<Rightarrow> Inr Null
      | TrueP \<Rightarrow> Inr Null
      | _ \<Rightarrow> (case deref s p of Some (OCons a d) \<Rightarrow> Inr d | _ \<Rightarrow> Inl Undefined))"

definition get_value :: "state \<Rightarrow> ptr \<Rightarrow> error + int" where
  "get_value s p = (case deref s p of Some (OInt v) \<Rightarrow> Inr v | _ \<Rightarrow> Inl Undefined)"

definition get_name :: "state \<Rightarrow> ptr \<Rightarrow> error + string" where
  "get_name s p = (case deref s p of Some (OSymbol nm) \<Rightarrow> Inr nm | _ \<Rightarrow> Inl Undefined)"

definition get_function :: "state \<Rightarrow> ptr \<Rightarrow> error + primitive" where
  "get_function s p = (case deref s p of Some (OPrimitive f) \<Rightarrow> Inr f | _ \<Rightarrow> Inl Undefined)"

definition get_params :: "state \<Rightarrow> ptr \<Rightarrow> error + ptr" where
  "get_params s p = (case deref s p of Some (OFunction ps b) \<Rightarrow> Inr ps | _ \<Rightarrow> Inl Undefined)"

definition get_body :: "state \<Rightarrow> ptr \<Rightarrow> error + ptr" where
  "get_body s p = (case deref s p of Some (OFunction ps b) \<Rightarrow> Inr b | _ \<Rightarrow> Inl Undefined)"

definition set_car :: "ptr \<Rightarrow> ptr \<Rightarrow> state \<Rightarrow> error + state" where
  "set_car p v s =
     (case p of
        Ref a \<Rightarrow>
          (case deref s p of
             Some (OCons x d) \<Rightarrow> Inr (s\<lparr>heap := (heap s)[a := OCons v d]\<rparr>)
           | _ \<Rightarrow> Inl Undefined)
      | _ \<Rightarrow> Inl Undefined)"

definition set_cdr :: "ptr \<Rightarrow> ptr \<Rightarrow> state \<Rightarrow> error + state" where
  "set_cdr p v s =
     (case p of
        Ref a \<Rightarrow>
          (case deref s p of
             Some (OCons x d) \<Rightarrow> Inr (s\<lparr>heap := (heap s)[a := OCons x v]\<rparr>)
           | _ \<Rightarrow> Inl Undefined)
      | _ \<Rightarrow> Inl Undefined)"

text \<open>\<^verbatim>\<open>new_object\<close> followed by the stores that initialise the fields.\<close>

definition new_object :: "obj \<Rightarrow> state \<Rightarrow> ptr \<times> state" where
  "new_object ob s = (Ref (length (heap s)), s\<lparr>heap := heap s @ [ob]\<rparr>)"

definition cons :: "ptr \<Rightarrow> ptr \<Rightarrow> state \<Rightarrow> ptr \<times> state" where
  "cons a d s = new_object (OCons a d) s"

text \<open>
  \<^verbatim>\<open>count\<close>: the number of cells of a chain that ends in \<^verbatim>\<open>Nil\<close>, and \<open>-1\<close> for
  a chain that ends in anything else. The first argument bounds the number of
  iterations of the \<^verbatim>\<open>for\<close> loop; \<open>cnt\<close> is the loop's counter.
\<close>

fun count_loop :: "nat \<Rightarrow> state \<Rightarrow> ptr \<Rightarrow> int \<Rightarrow> error + int" where
  "count_loop k s l cnt =
     bnd (otype s l) (\<lambda>t.
       if t = OT_CONS then
         (case k of
            0 \<Rightarrow> Inl OutOfFuel
          | Suc k' \<Rightarrow> bnd (get_cdr s l) (\<lambda>d. count_loop k' s d (cnt + 1)))
       else Inr (if l = NilP then cnt else - 1))"

definition count :: "nat \<Rightarrow> state \<Rightarrow> ptr \<Rightarrow> error + int" where
  "count k s l = count_loop k s l 0"

subsection \<open>Environments\<close>

definition ht_insert :: "nat \<Rightarrow> string \<Rightarrow> ptr \<Rightarrow> state \<Rightarrow> error + state" where
  "ht_insert env nm v s =
     (if env < length (envs s)
      then Inr (s\<lparr>envs := (envs s)[env := (envs s ! env)\<lparr>ht := AList.update nm v (ht (envs s ! env))\<rparr>]\<rparr>)
      else Inl Undefined)"

definition env_create :: "state \<Rightarrow> nat \<times> state" where
  "env_create s = (length (envs s), s\<lparr>envs := envs s @ [\<lparr>ht = [], parent = None\<rparr>]\<rparr>)"

definition set_parent :: "nat \<Rightarrow> nat \<Rightarrow> state \<Rightarrow> error + state" where
  "set_parent env p s =
     (if env < length (envs s)
      then Inr (s\<lparr>envs := (envs s)[env := (envs s ! env)\<lparr>parent := Some p\<rparr>]\<rparr>)
      else Inl Undefined)"

text \<open>
  \<^verbatim>\<open>env_lookup\<close> climbs the parent chain; the first argument bounds the number of
  frames it may climb.
\<close>

fun env_lookup :: "nat \<Rightarrow> state \<Rightarrow> nat \<Rightarrow> string \<Rightarrow> error + ptr" where
  "env_lookup k s env nm =
     (if env < length (envs s) then
        (case map_of (ht (envs s ! env)) nm of
           Some v \<Rightarrow> Inr v
         | None \<Rightarrow>
             (case parent (envs s ! env) of
                Some p \<Rightarrow>
                  (case k of 0 \<Rightarrow> Inl OutOfFuel | Suc k' \<Rightarrow> env_lookup k' s p nm)
              | None \<Rightarrow> Inl (Exit (''Undefined symbol: '' @ nm))))
      else Inl Undefined)"

section \<open>The evaluator\<close>

text \<open>
  \<^verbatim>\<open>eval\<close>, \<^verbatim>\<open>apply\<close> and the primitives call each other. The loops and the
  primitives are written first, over the evaluator \<open>ev\<close> they call for
  \<^verbatim>\<open>eval\<close>; \<open>eval\<close> and \<open>apply_fn\<close> below close the recursion. The argument
  \<open>k\<close> of a loop bounds its iterations.
\<close>

type_synonym evaluator = "nat \<Rightarrow> ptr \<Rightarrow> state \<Rightarrow> error + ptr \<times> state"

text \<open>
  \<^verbatim>\<open>eval_args\<close>: the \<^verbatim>\<open>for\<close> loop with its locals \<^verbatim>\<open>first\<close> and \<^verbatim>\<open>last\<close>. Each
  round evaluates \<^verbatim>\<open>o->car\<close>, allocates a cell for the value, links it behind
  \<^verbatim>\<open>last\<close>, and only then reads \<^verbatim>\<open>o->cdr\<close>.
\<close>

fun eval_args_loop ::
  "evaluator \<Rightarrow> nat \<Rightarrow> nat \<Rightarrow> ptr \<Rightarrow> ptr \<Rightarrow> ptr \<Rightarrow> state \<Rightarrow> error + ptr \<times> state" where
  "eval_args_loop ev k env e firstp lastp s =
     (if e = NilP then Inr (firstp, s)
      else
        (case k of
           0 \<Rightarrow> Inl OutOfFuel
         | Suc k' \<Rightarrow>
             bnd (get_car s e) (\<lambda>a.
             bnd (ev env a s) (\<lambda>(v, s1).
             (case cons v NilP s1 of
                (c, s2) \<Rightarrow>
                  bnd (if firstp = NilP then Inr (c, s2)
                       else bnd (set_cdr lastp c s2) (\<lambda>s3. Inr (firstp, s3))) (\<lambda>(firstp', s3).
                  bnd (get_cdr s3 e) (\<lambda>d.
                  eval_args_loop ev k' env d firstp' c s3)))))))"

definition eval_args :: "evaluator \<Rightarrow> nat \<Rightarrow> nat \<Rightarrow> ptr \<Rightarrow> state \<Rightarrow> error + ptr \<times> state" where
  "eval_args ev k env e s = eval_args_loop ev k env e NilP NilP s"

text \<open>
  \<^verbatim>\<open>progn\<close>: the local \<^verbatim>\<open>last\<close> is uninitialised (\<open>None\<close>) until the first
  round; returning it uninitialised, for an empty list, is undefined.
\<close>

fun progn_loop ::
  "evaluator \<Rightarrow> nat \<Rightarrow> nat \<Rightarrow> ptr \<Rightarrow> ptr option \<Rightarrow> state \<Rightarrow> error + ptr \<times> state" where
  "progn_loop ev k env args lastp s =
     (if args = NilP then (case lastp of None \<Rightarrow> Inl Undefined | Some v \<Rightarrow> Inr (v, s))
      else
        (case k of
           0 \<Rightarrow> Inl OutOfFuel
         | Suc k' \<Rightarrow>
             bnd (get_car s args) (\<lambda>a.
             bnd (ev env a s) (\<lambda>(v, s1).
             bnd (get_cdr s1 args) (\<lambda>d.
             progn_loop ev k' env d (Some v) s1)))))"

definition progn :: "evaluator \<Rightarrow> nat \<Rightarrow> nat \<Rightarrow> ptr \<Rightarrow> state \<Rightarrow> error + ptr \<times> state" where
  "progn ev k env args s = progn_loop ev k env args None s"

text \<open>
  The parameter-binding loop of \<^verbatim>\<open>apply\<close>. It tests \<^verbatim>\<open>params\<close> only: when the
  values have run out, \<^verbatim>\<open>args\<close> is \<^verbatim>\<open>Nil\<close>, the parameter is bound to
  \<^verbatim>\<open>Nil->car\<close>, which is \<^verbatim>\<open>NULL\<close>, and \<^verbatim>\<open>args\<close> becomes \<^verbatim>\<open>Nil->cdr\<close>, which is
  \<^verbatim>\<open>NULL\<close> too; one more round reads \<^verbatim>\<open>args->car\<close> through \<^verbatim>\<open>NULL\<close>.
\<close>

fun bind_params :: "nat \<Rightarrow> nat \<Rightarrow> ptr \<Rightarrow> ptr \<Rightarrow> state \<Rightarrow> error + state" where
  "bind_params k env_child params args s =
     bnd (otype s params) (\<lambda>t.
       if t = OT_CONS then
         (case k of
            0 \<Rightarrow> Inl OutOfFuel
          | Suc k' \<Rightarrow>
              bnd (get_car s params) (\<lambda>p.
              bnd (get_name s p) (\<lambda>nm.
              bnd (get_car s args) (\<lambda>v.
              bnd (ht_insert env_child nm v s) (\<lambda>s1.
              bnd (get_cdr s1 params) (\<lambda>ps.
              bnd (get_cdr s1 args) (\<lambda>vs.
              bind_params k' env_child ps vs s1)))))))
       else Inr s)"

subsection \<open>Print\<close>

text \<open>What \<^verbatim>\<open>printf("%d", v)\<close> writes.\<close>

fun show_nat :: "nat \<Rightarrow> string" where
  "show_nat n =
     (if n < 10 then [''0123456789'' ! n]
      else show_nat (n div 10) @ [''0123456789'' ! (n mod 10)])"

definition show_int :: "int \<Rightarrow> string" where
  "show_int i = (if i < 0 then CHR ''-'' # show_nat (nat (- i)) else show_nat (nat i))"

definition printf :: "string \<Rightarrow> state \<Rightarrow> state" where
  "printf txt s = s\<lparr>out := out s @ txt\<rparr>"

text \<open>
  \<^verbatim>\<open>print\<close> and the \<^verbatim>\<open>for (;;)\<close> loop of its \<^verbatim>\<open>OT_CONS\<close> case. The loop
  prints \<^verbatim>\<open>o->car\<close>, stops when \<^verbatim>\<open>o->cdr == Nil\<close>, and otherwise goes on with
  \<^verbatim>\<open>o = o->cdr\<close> whatever the tag of that object is.
\<close>

fun print :: "nat \<Rightarrow> ptr \<Rightarrow> state \<Rightarrow> error + state"
  and print_loop :: "nat \<Rightarrow> ptr \<Rightarrow> state \<Rightarrow> error + state" where
  "print 0 p s = Inl OutOfFuel"
| "print (Suc k) p s =
     bnd (otype s p) (\<lambda>t.
       case t of
         OT_INT \<Rightarrow> bnd (get_value s p) (\<lambda>v. Inr (printf (show_int v) s))
       | OT_SYMBOL \<Rightarrow> bnd (get_name s p) (\<lambda>nm. Inr (printf nm s))
       | OT_CONS \<Rightarrow> bnd (print_loop k p (printf ''('' s)) (\<lambda>s1. Inr (printf '')'' s1))
       | OT_NIL \<Rightarrow> Inr (printf ''Nil'' s)
       | OT_TRUE \<Rightarrow> Inr (printf ''True'' s)
       | OT_PRIMITIVE \<Rightarrow> Inr (printf ''<primitive>'' s)
       | OT_FUNCTION \<Rightarrow> Inr (printf ''<function>'' s))"
| "print_loop 0 p s = Inl OutOfFuel"
| "print_loop (Suc k) p s =
     bnd (get_car s p) (\<lambda>a.
     bnd (print k a s) (\<lambda>s1.
     bnd (get_cdr s1 p) (\<lambda>d.
     if d = NilP then Inr s1 else print_loop k d (printf '' '' s1))))"

subsection \<open>Primitives\<close>

fun check_params :: "nat \<Rightarrow> state \<Rightarrow> ptr \<Rightarrow> error + unit" where
  "check_params k s p =
     bnd (otype s p) (\<lambda>t.
       if t = OT_CONS then
         (case k of
            0 \<Rightarrow> Inl OutOfFuel
          | Suc k' \<Rightarrow>
              bnd (get_car s p) (\<lambda>a.
              bnd (otype s a) (\<lambda>ta.
              if ta \<noteq> OT_SYMBOL then err ''function parameter must be a symbol''
              else bnd (get_cdr s p) (\<lambda>d. check_params k' s d))))
       else Inr ())"

definition create_function :: "nat \<Rightarrow> ptr \<Rightarrow> ptr \<Rightarrow> state \<Rightarrow> error + ptr \<times> state" where
  "create_function k params body s =
     bnd (check_params k s params) (\<lambda>u. Inr (new_object (OFunction params body) s))"

fun primitive_and :: "evaluator \<Rightarrow> nat \<Rightarrow> nat \<Rightarrow> ptr \<Rightarrow> state \<Rightarrow> error + ptr \<times> state" where
  "primitive_and ev k env args s =
     (if args = NilP then Inr (TrueP, s)
      else
        (case k of
           0 \<Rightarrow> Inl OutOfFuel
         | Suc k' \<Rightarrow>
             bnd (get_car s args) (\<lambda>a.
             bnd (ev env a s) (\<lambda>(v, s1).
             if v = NilP then Inr (NilP, s1)
             else bnd (get_cdr s1 args) (\<lambda>d. primitive_and ev k' env d s1)))))"

fun primitive_or :: "evaluator \<Rightarrow> nat \<Rightarrow> nat \<Rightarrow> ptr \<Rightarrow> state \<Rightarrow> error + ptr \<times> state" where
  "primitive_or ev k env args s =
     (if args = NilP then Inr (NilP, s)
      else
        (case k of
           0 \<Rightarrow> Inl OutOfFuel
         | Suc k' \<Rightarrow>
             bnd (get_car s args) (\<lambda>a.
             bnd (ev env a s) (\<lambda>(v, s1).
             if v \<noteq> NilP then Inr (TrueP, s1)
             else bnd (get_cdr s1 args) (\<lambda>d. primitive_or ev k' env d s1)))))"

definition primitive_car :: "evaluator \<Rightarrow> nat \<Rightarrow> nat \<Rightarrow> ptr \<Rightarrow> state \<Rightarrow> error + ptr \<times> state" where
  "primitive_car ev k env args s =
     bnd (eval_args ev k env args s) (\<lambda>(a, s1).
     bnd (get_car s1 a) (\<lambda>x.
     bnd (otype s1 x) (\<lambda>t.
     if t \<noteq> OT_CONS then err ''car accepts single list argument only''
     else
       bnd (get_cdr s1 a) (\<lambda>d.
       if d \<noteq> NilP then err ''car accepts single list argument only''
       else bnd (get_car s1 x) (\<lambda>r. Inr (r, s1))))))"

definition primitive_cdr :: "evaluator \<Rightarrow> nat \<Rightarrow> nat \<Rightarrow> ptr \<Rightarrow> state \<Rightarrow> error + ptr \<times> state" where
  "primitive_cdr ev k env args s =
     bnd (eval_args ev k env args s) (\<lambda>(a, s1).
     bnd (get_car s1 a) (\<lambda>x.
     bnd (otype s1 x) (\<lambda>t.
     if t \<noteq> OT_CONS then err ''cdr accepts single list argument only''
     else
       bnd (get_cdr s1 a) (\<lambda>d.
       if d \<noteq> NilP then err ''cdr accepts single list argument only''
       else bnd (get_cdr s1 x) (\<lambda>r. Inr (r, s1))))))"

definition primitive_cons :: "evaluator \<Rightarrow> nat \<Rightarrow> nat \<Rightarrow> ptr \<Rightarrow> state \<Rightarrow> error + ptr \<times> state" where
  "primitive_cons ev k env args s =
     bnd (count k s args) (\<lambda>c.
     if c \<noteq> 2 then err ''cons accepts two arguments only''
     else
       bnd (eval_args ev k env args s) (\<lambda>(a, s1).
       bnd (get_cdr s1 a) (\<lambda>d.
       bnd (get_car s1 d) (\<lambda>x.
       bnd (set_cdr a x s1) (\<lambda>s2. Inr (a, s2))))))"

definition primitive_define :: "evaluator \<Rightarrow> nat \<Rightarrow> nat \<Rightarrow> ptr \<Rightarrow> state \<Rightarrow> error + ptr \<times> state" where
  "primitive_define ev k env args s =
     bnd (count k s args) (\<lambda>c.
     if c \<noteq> 2 then err ''define accepts two arguments only, with first one being a symbol''
     else
       bnd (get_car s args) (\<lambda>n.
       bnd (otype s n) (\<lambda>t.
       if t \<noteq> OT_SYMBOL
       then err ''define accepts two arguments only, with first one being a symbol''
       else
         bnd (get_cdr s args) (\<lambda>d.
         bnd (get_car s d) (\<lambda>e.
         bnd (ev env e s) (\<lambda>(v, s1).
         bnd (get_car s1 args) (\<lambda>n1.
         bnd (get_name s1 n1) (\<lambda>nm.
         bnd (ht_insert env nm v s1) (\<lambda>s2. Inr (v, s2))))))))))"

text \<open>
  The three comparisons differ in their message and their operator only; \<open>cmp\<close> is the
  operator and \<open>who\<close> the name in the message.
\<close>

definition compare_ints ::
  "string \<Rightarrow> (int \<Rightarrow> int \<Rightarrow> bool) \<Rightarrow> evaluator \<Rightarrow> nat \<Rightarrow> nat \<Rightarrow> ptr \<Rightarrow> state
   \<Rightarrow> error + ptr \<times> state" where
  "compare_ints who cmp ev k env args s =
     bnd (count k s args) (\<lambda>c.
     if c \<noteq> 2 then err (who @ '' accepts two arguments only'')
     else
       bnd (eval_args ev k env args s) (\<lambda>(a, s1).
       bnd (get_car s1 a) (\<lambda>x.
       bnd (otype s1 x) (\<lambda>tx.
       if tx \<noteq> OT_INT then err (who @ '' accepts integers only'')
       else
         bnd (get_cdr s1 a) (\<lambda>d.
         bnd (get_car s1 d) (\<lambda>y.
         bnd (otype s1 y) (\<lambda>ty.
         if ty \<noteq> OT_INT then err (who @ '' accepts integers only'')
         else
           bnd (get_value s1 x) (\<lambda>vx.
           bnd (get_value s1 y) (\<lambda>vy.
           Inr (if cmp vx vy then TrueP else NilP, s1))))))))))"

definition primitive_eq :: "evaluator \<Rightarrow> nat \<Rightarrow> nat \<Rightarrow> ptr \<Rightarrow> state \<Rightarrow> error + ptr \<times> state" where
  "primitive_eq = compare_ints ''='' (\<lambda>x y. x = y)"

definition primitive_gt :: "evaluator \<Rightarrow> nat \<Rightarrow> nat \<Rightarrow> ptr \<Rightarrow> state \<Rightarrow> error + ptr \<times> state" where
  "primitive_gt = compare_ints ''>'' (\<lambda>x y. x > y)"

definition primitive_lt :: "evaluator \<Rightarrow> nat \<Rightarrow> nat \<Rightarrow> ptr \<Rightarrow> state \<Rightarrow> error + ptr \<times> state" where
  "primitive_lt = compare_ints ''<'' (\<lambda>x y. x < y)"

definition primitive_if :: "evaluator \<Rightarrow> nat \<Rightarrow> nat \<Rightarrow> ptr \<Rightarrow> state \<Rightarrow> error + ptr \<times> state" where
  "primitive_if ev k env args s =
     bnd (count k s args) (\<lambda>cnt.
     if cnt \<noteq> 2 \<and> cnt \<noteq> 3 then err ''if needs two or three arguments''
     else
       bnd (get_car s args) (\<lambda>c.
       bnd (ev env c s) (\<lambda>(v, s1).
       if v \<noteq> NilP then
         bnd (get_cdr s1 args) (\<lambda>d.
         bnd (get_car s1 d) (\<lambda>e. ev env e s1))
       else if cnt = 2 then Inr (NilP, s1)
       else
         bnd (get_cdr s1 args) (\<lambda>d.
         bnd (get_cdr s1 d) (\<lambda>dd.
         bnd (get_car s1 dd) (\<lambda>e. ev env e s1))))))"

definition primitive_lambda :: "evaluator \<Rightarrow> nat \<Rightarrow> nat \<Rightarrow> ptr \<Rightarrow> state \<Rightarrow> error + ptr \<times> state" where
  "primitive_lambda ev k env args s =
     bnd (get_car s args) (\<lambda>ps.
     bnd (get_cdr s args) (\<lambda>b.
     create_function k ps b s))"

text \<open>
  The loop of \<^verbatim>\<open>primitive_minus\<close>; \<open>diff\<close> is \<open>None\<close> while \<^verbatim>\<open>first\<close> is set and
  \<^verbatim>\<open>diff\<close> not yet assigned.
\<close>

fun minus_loop :: "nat \<Rightarrow> state \<Rightarrow> ptr \<Rightarrow> int option \<Rightarrow> error + int option" where
  "minus_loop k s args diff =
     (if args = NilP then Inr diff
      else
        (case k of
           0 \<Rightarrow> Inl OutOfFuel
         | Suc k' \<Rightarrow>
             bnd (get_car s args) (\<lambda>a.
             bnd (otype s a) (\<lambda>t.
             if t \<noteq> OT_INT then err ''+ accepts only integers''
             else
               bnd (get_value s a) (\<lambda>v.
               bnd (get_cdr s args) (\<lambda>d.
               (case diff of
                  None \<Rightarrow> if d = NilP then Inr (Some (int32 (- v))) else minus_loop k' s d (Some v)
                | Some x \<Rightarrow> minus_loop k' s d (Some (int32 (x - v))))))))))"

definition primitive_minus :: "evaluator \<Rightarrow> nat \<Rightarrow> nat \<Rightarrow> ptr \<Rightarrow> state \<Rightarrow> error + ptr \<times> state" where
  "primitive_minus ev k env args s =
     bnd (eval_args ev k env args s) (\<lambda>(a, s1).
     bnd (minus_loop k s1 a None) (\<lambda>diff.
     (case diff of
        None \<Rightarrow> Inl Undefined
      | Some v \<Rightarrow> Inr (new_object (OInt v) s1))))"

fun multi_loop :: "nat \<Rightarrow> state \<Rightarrow> ptr \<Rightarrow> int option \<Rightarrow> error + int option" where
  "multi_loop k s args tot =
     (if args = NilP then Inr tot
      else
        (case k of
           0 \<Rightarrow> Inl OutOfFuel
         | Suc k' \<Rightarrow>
             bnd (get_car s args) (\<lambda>a.
             bnd (otype s a) (\<lambda>t.
             if t \<noteq> OT_INT then err ''* accepts only integers''
             else
               bnd (get_value s a) (\<lambda>v.
               bnd (get_cdr s args) (\<lambda>d.
               (case tot of
                  None \<Rightarrow> multi_loop k' s d (Some v)
                | Some x \<Rightarrow> multi_loop k' s d (Some (int32 (x * v))))))))))"

definition primitive_multi :: "evaluator \<Rightarrow> nat \<Rightarrow> nat \<Rightarrow> ptr \<Rightarrow> state \<Rightarrow> error + ptr \<times> state" where
  "primitive_multi ev k env args s =
     bnd (count k s args) (\<lambda>c.
     if c < 2 then err ''* accepts at least two arguments''
     else
       bnd (eval_args ev k env args s) (\<lambda>(a, s1).
       bnd (multi_loop k s1 a None) (\<lambda>tot.
       (case tot of
          None \<Rightarrow> Inl Undefined
        | Some v \<Rightarrow> Inr (new_object (OInt v) s1)))))"

definition primitive_obj_eq :: "evaluator \<Rightarrow> nat \<Rightarrow> nat \<Rightarrow> ptr \<Rightarrow> state \<Rightarrow> error + ptr \<times> state" where
  "primitive_obj_eq ev k env args s =
     bnd (count k s args) (\<lambda>c.
     if c \<noteq> 2 then err ''eq accepts two arguments only''
     else
       bnd (eval_args ev k env args s) (\<lambda>(a, s1).
       bnd (get_car s1 a) (\<lambda>x.
       bnd (get_cdr s1 a) (\<lambda>d.
       bnd (get_car s1 d) (\<lambda>y.
       Inr (if x = y then TrueP else NilP, s1))))))"

fun plus_loop :: "nat \<Rightarrow> state \<Rightarrow> ptr \<Rightarrow> int \<Rightarrow> error + int" where
  "plus_loop k s args acc =
     (if args = NilP then Inr acc
      else
        (case k of
           0 \<Rightarrow> Inl OutOfFuel
         | Suc k' \<Rightarrow>
             bnd (get_car s args) (\<lambda>a.
             bnd (otype s a) (\<lambda>t.
             if t \<noteq> OT_INT then err ''+ accepts only integers''
             else
               bnd (get_value s a) (\<lambda>v.
               bnd (get_cdr s args) (\<lambda>d.
               plus_loop k' s d (int32 (acc + v))))))))"

definition primitive_plus :: "evaluator \<Rightarrow> nat \<Rightarrow> nat \<Rightarrow> ptr \<Rightarrow> state \<Rightarrow> error + ptr \<times> state" where
  "primitive_plus ev k env args s =
     bnd (eval_args ev k env args s) (\<lambda>(a, s1).
     bnd (plus_loop k s1 a 0) (\<lambda>r.
     Inr (new_object (OInt r) s1)))"

definition primitive_println :: "evaluator \<Rightarrow> nat \<Rightarrow> nat \<Rightarrow> ptr \<Rightarrow> state \<Rightarrow> error + ptr \<times> state" where
  "primitive_println ev k env args s =
     bnd (count k s args) (\<lambda>c.
     if c \<noteq> 1 then err ''println takes one argument only''
     else
       bnd (get_car s args) (\<lambda>e.
       bnd (ev env e s) (\<lambda>(v, s1).
       bnd (print k v s1) (\<lambda>s2.
       Inr (NilP, printf [CHR 0x0A] s2)))))"

definition primitive_progn :: "evaluator \<Rightarrow> nat \<Rightarrow> nat \<Rightarrow> ptr \<Rightarrow> state \<Rightarrow> error + ptr \<times> state" where
  "primitive_progn ev k env args s = progn ev k env args s"

definition primitive_setcar :: "evaluator \<Rightarrow> nat \<Rightarrow> nat \<Rightarrow> ptr \<Rightarrow> state \<Rightarrow> error + ptr \<times> state" where
  "primitive_setcar ev k env args s =
     bnd (eval_args ev k env args s) (\<lambda>(a, s1).
     bnd (count k s1 a) (\<lambda>c.
     if c \<noteq> 2 then err ''setcar accepts two arguments only, with first being a cons cell''
     else
       bnd (get_car s1 a) (\<lambda>x.
       bnd (otype s1 x) (\<lambda>t.
       if t \<noteq> OT_CONS
       then err ''setcar accepts two arguments only, with first being a cons cell''
       else
         bnd (get_cdr s1 a) (\<lambda>d.
         bnd (get_car s1 d) (\<lambda>y.
         bnd (set_car x y s1) (\<lambda>s2.
         bnd (get_car s2 a) (\<lambda>r. Inr (r, s2)))))))))"

definition primitive_quote :: "evaluator \<Rightarrow> nat \<Rightarrow> nat \<Rightarrow> ptr \<Rightarrow> state \<Rightarrow> error + ptr \<times> state" where
  "primitive_quote ev k env args s =
     bnd (count k s args) (\<lambda>c.
     if c \<noteq> 1 then err ''quote accepts one argument only''
     else bnd (get_car s args) (\<lambda>a. Inr (a, s)))"

text \<open>The \<^verbatim>\<open>while\<close> loop of \<^verbatim>\<open>primitive_while\<close>, after the check of the count.\<close>

fun while_loop :: "evaluator \<Rightarrow> nat \<Rightarrow> nat \<Rightarrow> ptr \<Rightarrow> state \<Rightarrow> error + ptr \<times> state" where
  "while_loop ev k env args s =
     bnd (get_car s args) (\<lambda>c.
     bnd (ev env c s) (\<lambda>(v, s1).
     if v \<noteq> NilP then
       (case k of
          0 \<Rightarrow> Inl OutOfFuel
        | Suc k' \<Rightarrow>
            bnd (get_cdr s1 args) (\<lambda>body.
            bnd (eval_args ev k env body s1) (\<lambda>(r, s2).
            while_loop ev k' env args s2)))
     else Inr (NilP, s1)))"

definition primitive_while :: "evaluator \<Rightarrow> nat \<Rightarrow> nat \<Rightarrow> ptr \<Rightarrow> state \<Rightarrow> error + ptr \<times> state" where
  "primitive_while ev k env args s =
     bnd (count k s args) (\<lambda>c.
     if c < 2 then err ''while needs at least two arguments''
     else while_loop ev k env args s)"

definition primitive_defun :: "evaluator \<Rightarrow> nat \<Rightarrow> nat \<Rightarrow> ptr \<Rightarrow> state \<Rightarrow> error + ptr \<times> state" where
  "primitive_defun ev k env args s =
     bnd (get_cdr s args) (\<lambda>d.
     bnd (primitive_lambda ev k env d s) (\<lambda>(fn, s1).
     (case cons fn NilP s1 of
        (c, s2) \<Rightarrow>
          bnd (set_cdr args c s2) (\<lambda>s3.
          primitive_define ev k env args s3))))"

text \<open>The call \<^verbatim>\<open>o->function(env, args)\<close> through the function pointer.\<close>

definition call_primitive ::
  "primitive \<Rightarrow> evaluator \<Rightarrow> nat \<Rightarrow> nat \<Rightarrow> ptr \<Rightarrow> state \<Rightarrow> error + ptr \<times> state" where
  "call_primitive f =
     (case f of
        P_and \<Rightarrow> primitive_and
      | P_car \<Rightarrow> primitive_car
      | P_cdr \<Rightarrow> primitive_cdr
      | P_cons \<Rightarrow> primitive_cons
      | P_define \<Rightarrow> primitive_define
      | P_defun \<Rightarrow> primitive_defun
      | P_eq \<Rightarrow> primitive_eq
      | P_gt \<Rightarrow> primitive_gt
      | P_if \<Rightarrow> primitive_if
      | P_lt \<Rightarrow> primitive_lt
      | P_lambda \<Rightarrow> primitive_lambda
      | P_minus \<Rightarrow> primitive_minus
      | P_multi \<Rightarrow> primitive_multi
      | P_obj_eq \<Rightarrow> primitive_obj_eq
      | P_or \<Rightarrow> primitive_or
      | P_plus \<Rightarrow> primitive_plus
      | P_println \<Rightarrow> primitive_println
      | P_progn \<Rightarrow> primitive_progn
      | P_setcar \<Rightarrow> primitive_setcar
      | P_quote \<Rightarrow> primitive_quote
      | P_while \<Rightarrow> primitive_while)"

subsection \<open>Eval and apply\<close>

text \<open>
  The first argument bounds the nesting of calls of \<^verbatim>\<open>eval\<close> and, through the
  loops, the iterations of every loop run below this call. In the \<^verbatim>\<open>OT_CONS\<close>
  case \<^verbatim>\<open>args = o->cdr\<close> is read after the operator has been evaluated. A
  primitive object falls to the \<^verbatim>\<open>default\<close> label of the \<^verbatim>\<open>switch\<close>.
\<close>

fun eval :: "nat \<Rightarrow> nat \<Rightarrow> ptr \<Rightarrow> state \<Rightarrow> error + ptr \<times> state"
  and apply_fn :: "nat \<Rightarrow> nat \<Rightarrow> ptr \<Rightarrow> ptr \<Rightarrow> state \<Rightarrow> error + ptr \<times> state" where
  "eval 0 env e s = Inl OutOfFuel"
| "eval (Suc n) env e s =
     (if e = Null then Inr (Null, s)
      else
        bnd (otype s e) (\<lambda>t.
          case t of
            OT_INT \<Rightarrow> Inr (e, s)
          | OT_FUNCTION \<Rightarrow> Inr (e, s)
          | OT_TRUE \<Rightarrow> Inr (e, s)
          | OT_NIL \<Rightarrow> Inr (e, s)
          | OT_CONS \<Rightarrow>
              bnd (get_car s e) (\<lambda>a.
              bnd (eval n env a s) (\<lambda>(fn, s1).
              bnd (get_cdr s1 e) (\<lambda>args.
              bnd (otype s1 fn) (\<lambda>tf.
              if tf \<noteq> OT_PRIMITIVE \<and> tf \<noteq> OT_FUNCTION
              then err ''The first element of list must be a function''
              else
                bnd (otype s1 args) (\<lambda>ta.
                if ta \<noteq> OT_NIL \<and> ta \<noteq> OT_CONS
                then err ''Function argument must be a list''
                else apply_fn n env fn args s1)))))
          | OT_SYMBOL \<Rightarrow>
              bnd (get_name s e) (\<lambda>nm.
              bnd (env_lookup n s env nm) (\<lambda>v. Inr (v, s)))
          | OT_PRIMITIVE \<Rightarrow> Inr (Null, s)))"
| "apply_fn n env f args s =
     bnd (otype s f) (\<lambda>t.
       if t = OT_PRIMITIVE then
         bnd (get_function s f) (\<lambda>p. call_primitive p (eval n) n env args s)
       else if t = OT_FUNCTION then
         bnd (get_params s f) (\<lambda>params.
         bnd (eval_args (eval n) n env args s) (\<lambda>(vals, s1).
         (case env_create s1 of
            (env_child, s2) \<Rightarrow>
              bnd (set_parent env_child env s2) (\<lambda>s3.
              bnd (bind_params n env_child params vals s3) (\<lambda>s4.
              bnd (get_body s4 f) (\<lambda>body.
              progn (eval n) n env_child body s4))))))
       else Inr (Null, s))"

subsection \<open>The initial environment\<close>

definition add_primitive :: "nat \<Rightarrow> string \<Rightarrow> primitive \<Rightarrow> state \<Rightarrow> error + state" where
  "add_primitive env nm f s =
     (case new_object (OPrimitive f) s of (p, s1) \<Rightarrow> ht_insert env nm p s1)"

definition env_init :: "state \<Rightarrow> error + nat \<times> state" where
  "env_init s0 =
     (case env_create s0 of
        (env, s) \<Rightarrow>
          bnd (ht_insert env ''Nil'' NilP s) (\<lambda>s.
          bnd (ht_insert env ''True'' TrueP s) (\<lambda>s.
          bnd (add_primitive env ''and'' P_and s) (\<lambda>s.
          bnd (add_primitive env ''car'' P_car s) (\<lambda>s.
          bnd (add_primitive env ''cdr'' P_cdr s) (\<lambda>s.
          bnd (add_primitive env ''cons'' P_cons s) (\<lambda>s.
          bnd (add_primitive env ''define'' P_define s) (\<lambda>s.
          bnd (add_primitive env ''defun'' P_defun s) (\<lambda>s.
          bnd (add_primitive env ''='' P_eq s) (\<lambda>s.
          bnd (add_primitive env ''>'' P_gt s) (\<lambda>s.
          bnd (add_primitive env ''if'' P_if s) (\<lambda>s.
          bnd (add_primitive env ''<'' P_lt s) (\<lambda>s.
          bnd (add_primitive env ''lambda'' P_lambda s) (\<lambda>s.
          bnd (add_primitive env ''-'' P_minus s) (\<lambda>s.
          bnd (add_primitive env ''*'' P_multi s) (\<lambda>s.
          bnd (add_primitive env ''eq'' P_obj_eq s) (\<lambda>s.
          bnd (add_primitive env ''or'' P_or s) (\<lambda>s.
          bnd (add_primitive env ''+'' P_plus s) (\<lambda>s.
          bnd (add_primitive env ''println'' P_println s) (\<lambda>s.
          bnd (add_primitive env ''progn'' P_progn s) (\<lambda>s.
          bnd (add_primitive env ''setcar'' P_setcar s) (\<lambda>s.
          bnd (add_primitive env ''quote'' P_quote s) (\<lambda>s.
          bnd (add_primitive env ''while'' P_while s) (\<lambda>s.
          Inr (env, s)))))))))))))))))))))))))"

definition empty_state :: state where
  "empty_state = \<lparr>heap = [], envs = [], out = []\<rparr>"

section \<open>The reader\<close>

text \<open>
  Standard input is the list of the characters not yet read. \<^verbatim>\<open>getchar\<close> returns
  \<^verbatim>\<open>EOF\<close> (\<open>None\<close>) on the empty list; \<^verbatim>\<open>ungetc\<close> of \<^verbatim>\<open>EOF\<close> does nothing. The
  classes are those of \<^verbatim>\<open>ctype.h\<close> in the C locale. \<^verbatim>\<open>strchr\<close> also finds the
  terminating zero of \<^verbatim>\<open>symbol_special_chars\<close>, so the zero character counts as
  a special character.
\<close>

definition getchar :: "string \<Rightarrow> char option \<times> string" where
  "getchar inp = (case inp of [] \<Rightarrow> (None, []) | c # cs \<Rightarrow> (Some c, cs))"

definition ungetc :: "char option \<Rightarrow> string \<Rightarrow> string" where
  "ungetc c inp = (case c of None \<Rightarrow> inp | Some x \<Rightarrow> x # inp)"

definition peek :: "string \<Rightarrow> char option" where
  "peek inp = (case getchar inp of (c, rest) \<Rightarrow> c)"

definition isspace :: "char option \<Rightarrow> bool" where
  "isspace c =
     (case c of
        None \<Rightarrow> False
      | Some x \<Rightarrow> x \<in> set [CHR '' '', CHR 0x09, CHR 0x0A, CHR 0x0B, CHR 0x0C, CHR 0x0D])"

definition isdigit :: "char option \<Rightarrow> bool" where
  "isdigit c = (case c of None \<Rightarrow> False | Some x \<Rightarrow> x \<in> set ''0123456789'')"

definition isalpha :: "char option \<Rightarrow> bool" where
  "isalpha c =
     (case c of
        None \<Rightarrow> False
      | Some x \<Rightarrow> x \<in> set ''abcdefghijklmnopqrstuvwxyzABCDEFGHIJKLMNOPQRSTUVWXYZ'')"

definition isalnum :: "char option \<Rightarrow> bool" where
  "isalnum c = (isalpha c \<or> isdigit c)"

definition symbol_special_chars :: string where
  "symbol_special_chars = ''+-_<>=?*''"

definition is_special :: "char option \<Rightarrow> bool" where
  "is_special c =
     (case c of
        None \<Rightarrow> False
      | Some x \<Rightarrow> x \<in> set symbol_special_chars \<or> x = CHR 0x00)"

definition SYMBOL_MAX_LENGTH :: nat where
  "SYMBOL_MAX_LENGTH = 128"

text \<open>
  The loop of \<^verbatim>\<open>read_number\<close>: while the next character is a digit, take it into
  \<open>v\<close>. The arithmetic is that of a 32-bit \<^verbatim>\<open>int\<close>, wrapping around.
\<close>

fun read_number_loop :: "int \<Rightarrow> string \<Rightarrow> int \<times> string" where
  "read_number_loop v [] = (v, [])"
| "read_number_loop v (c # cs) =
     (if isdigit (Some c) then read_number_loop (int32 (v * 10 + (of_char c - 48))) cs
      else (v, c # cs))"

definition read_number :: "bool \<Rightarrow> string \<Rightarrow> state \<Rightarrow> ptr \<times> string \<times> state" where
  "read_number isPositive inp s =
     (case read_number_loop 0 inp of
        (v, rest) \<Rightarrow>
          (case new_object (OInt (if isPositive then v else int32 (- v))) s of
             (p, s1) \<Rightarrow> (p, rest, s1)))"

text \<open>
  The loop of \<^verbatim>\<open>read_symbol\<close> fills \<open>buf\<close>; \<^verbatim>\<open>strcpy\<close> then copies the buffer
  up to its first zero character.
\<close>

fun read_symbol_loop :: "string \<Rightarrow> string \<Rightarrow> error + string \<times> string" where
  "read_symbol_loop buf [] = Inr (buf, [])"
| "read_symbol_loop buf (c # cs) =
     (if isalnum (Some c) \<or> is_special (Some c) then
        (if length buf \<ge> SYMBOL_MAX_LENGTH then err ''Symbol name is too long''
         else read_symbol_loop (buf @ [c]) cs)
      else Inr (buf, c # cs))"

definition c_string :: "string \<Rightarrow> string" where
  "c_string buf = takeWhile (\<lambda>c. c \<noteq> CHR 0x00) buf"

definition read_symbol :: "string \<Rightarrow> state \<Rightarrow> error + ptr \<times> string \<times> state" where
  "read_symbol inp s =
     bnd (read_symbol_loop [] inp) (\<lambda>(buf, rest).
     (case new_object (OSymbol (c_string buf)) s of (p, s1) \<Rightarrow> Inr (p, rest, s1)))"

text \<open>
  The loop of \<^verbatim>\<open>read_quoted_symbol\<close>. At the end of input \<^verbatim>\<open>getchar\<close> keeps
  returning \<^verbatim>\<open>EOF\<close>, which is not the closing quote, so the loop stores it until
  the buffer is full and then reports the name as too long.
\<close>

fun read_quoted_symbol_loop :: "string \<Rightarrow> string \<Rightarrow> error + string \<times> string" where
  "read_quoted_symbol_loop buf [] = err ''Symbol name is too long''"
| "read_quoted_symbol_loop buf (c # cs) =
     (if c \<noteq> CHR 0x22 then
        (if length buf \<ge> SYMBOL_MAX_LENGTH then err ''Symbol name is too long''
         else read_quoted_symbol_loop (buf @ [c]) cs)
      else Inr (buf, cs))"

definition read_quoted_symbol :: "string \<Rightarrow> state \<Rightarrow> error + ptr \<times> string \<times> state" where
  "read_quoted_symbol inp s =
     bnd (read_quoted_symbol_loop [] inp) (\<lambda>(buf, rest).
     (case new_object (OSymbol (c_string buf)) s of (p, s1) \<Rightarrow> Inr (p, rest, s1)))"

text \<open>
  \<^verbatim>\<open>read\<close>, with the loop of \<^verbatim>\<open>read_list\<close> and \<^verbatim>\<open>read_quote\<close>. The first
  argument bounds the characters skipped and the nesting of the calls.

  \<^verbatim>\<open>read_number\<close> is defined with the parameter \<^verbatim>\<open>isPositive\<close>, but the digit
  branch of \<^verbatim>\<open>read\<close> calls it as \<^verbatim>\<open>read_number()\<close>, through the declaration
  without a prototype: C leaves the value that the callee finds in its parameter
  open. The model takes it as the argument \<open>ip\<close>: \<open>True\<close> when that value is not
  zero. The branch for a minus sign passes zero itself.
\<close>

fun read :: "bool \<Rightarrow> nat \<Rightarrow> string \<Rightarrow> state \<Rightarrow> error + ptr \<times> string \<times> state"
  and read_list_loop ::
    "bool \<Rightarrow> nat \<Rightarrow> ptr \<Rightarrow> ptr \<Rightarrow> string \<Rightarrow> state \<Rightarrow> error + ptr \<times> string \<times> state" where
  "read ip 0 inp s = Inl OutOfFuel"
| "read ip (Suc n) inp s =
     (case getchar inp of
        (c, rest) \<Rightarrow>
          if isspace c then read ip n rest s
          else if c = None then Inr (Null, rest, s)
          else if isdigit c then Inr (read_number ip (ungetc c rest) s)
          else if c = Some (CHR ''-'') \<and> isdigit (peek rest) then Inr (read_number False rest s)
          else if isalpha c \<or> is_special c then read_symbol (ungetc c rest) s
          else if c = Some (CHR 0x22) then read_quoted_symbol rest s
          else if c = Some (CHR ''('') then read_list_loop ip n NilP NilP rest s
          else if c = Some (CHR 0x27) then
            (case new_object (OSymbol ''quote'') s of
               (q, s1) \<Rightarrow>
                 bnd (read ip n rest s1) (\<lambda>(x, rest1, s2).
                 (case cons x NilP s2 of
                    (rest_cell, s3) \<Rightarrow>
                      (case cons q rest_cell s3 of (r, s4) \<Rightarrow> Inr (r, rest1, s4)))))
          else err (''Syntax error'' @ [CHR 0x0A]))"
| "read_list_loop ip 0 firstp lastp inp s = Inl OutOfFuel"
| "read_list_loop ip (Suc n) firstp lastp inp s =
     (case getchar inp of
        (c, rest) \<Rightarrow>
          if isspace c then read_list_loop ip n firstp lastp rest s
          else if c = Some (CHR '')'') then Inr (firstp, rest, s)
          else
            bnd (read ip n (ungetc c rest) s) (\<lambda>(x, rest1, s1).
            (case cons x NilP s1 of
               (cell, s2) \<Rightarrow>
                 if firstp = NilP then read_list_loop ip n cell cell rest1 s2
                 else
                   bnd (set_cdr lastp cell s2) (\<lambda>s3.
                   read_list_loop ip n firstp cell rest1 s3))))"

section \<open>Programs for the examples\<close>

text \<open>
  \<open>load txt\<close> is the state after \<^verbatim>\<open>env_init\<close> on a fresh process and one call of
  \<^verbatim>\<open>read\<close> on the text \<open>txt\<close> (with the sign flag of the digit branch not zero),
  together with the expression read. In that state the global frame has the number
  \<open>0\<close>, the primitives are the objects \<open>0\<close> to \<open>20\<close>, and the expression starts
  at object \<open>21\<close>.
\<close>

definition load :: "string \<Rightarrow> ptr \<times> state" where
  "load txt =
     (case env_init empty_state of
        Inl e \<Rightarrow> (Null, empty_state)
      | Inr (env, s) \<Rightarrow>
          (case read True (Suc (length txt)) txt s of
             Inl e \<Rightarrow> (Null, s)
           | Inr (e, rest, s1) \<Rightarrow> (e, s1)))"

text \<open>The object a run returns, read in the state it returns.\<close>

definition value_of :: "error + ptr \<times> state \<Rightarrow> error + obj option" where
  "value_of r = (case r of Inl e \<Rightarrow> Inl e | Inr (p, s) \<Rightarrow> Inr (deref s p))"

section \<open>Chains of cells\<close>

text \<open>
  \<open>cells s p xs\<close>: in the state \<open>s\<close>, following \<^verbatim>\<open>cdr\<close> from \<open>p\<close> passes through
  cells whose \<^verbatim>\<open>car\<close> fields are \<open>xs\<close>, in this order, and then reaches an object
  that is not a cell. This is what a loop of the form
  \<^verbatim>\<open>for (; p->type == OT_CONS; p = p->cdr)\<close> walks over.
\<close>

fun cells :: "state \<Rightarrow> ptr \<Rightarrow> ptr list \<Rightarrow> bool" where
  "cells s p [] = (case otype s p of Inl e \<Rightarrow> False | Inr t \<Rightarrow> t \<noteq> OT_CONS)"
| "cells s p (x # xs) =
     (case deref s p of Some (OCons a d) \<Rightarrow> a = x \<and> cells s d xs | _ \<Rightarrow> False)"

text \<open>The state a run returns, and the object that a frame binds to a name.\<close>

definition state_of :: "error + ptr \<times> state \<Rightarrow> state" where
  "state_of r = (case r of Inl e \<Rightarrow> empty_state | Inr (p, s) \<Rightarrow> s)"

definition binding_of :: "state \<Rightarrow> nat \<Rightarrow> string \<Rightarrow> obj option" where
  "binding_of s env nm =
     (if env < length (envs s)
      then (case map_of (ht (envs s ! env)) nm of None \<Rightarrow> None | Some p \<Rightarrow> deref s p)
      else None)"

text \<open>
  The example of the spec: the expression \<^verbatim>\<open>(while (> x 0) (define x (- x 1)))\<close>,
  read in the initial environment, in a state whose global frame also binds \<^verbatim>\<open>x\<close>
  to a new integer object \<open>3\<close>.
\<close>

definition while_example :: "ptr \<times> state" where
  "while_example =
     (case load ''(while (> x 0) (define x (- x 1)))'' of
        (e, s) \<Rightarrow>
          (case new_object (OInt 3) s of
             (p, s1) \<Rightarrow>
               (case ht_insert 0 ''x'' p s1 of Inl er \<Rightarrow> (e, s1) | Inr s2 \<Rightarrow> (e, s2))))"

text \<open>
  The words of the spec for \<^verbatim>\<open>while\<close>, as a relation between the state before
  and the state after: evaluate the condition (the first argument, read anew each
  time); if it is \<^verbatim>\<open>Nil\<close>, stop; otherwise evaluate every remaining expression
  once and go round again.
\<close>

inductive while_sem :: "evaluator \<Rightarrow> nat \<Rightarrow> ptr \<Rightarrow> state \<Rightarrow> state \<Rightarrow> bool"
  for ev :: evaluator and env :: nat and args :: ptr where
  stop: "get_car s args = Inr c \<Longrightarrow> ev env c s = Inr (NilP, s1) \<Longrightarrow> while_sem ev env args s s1"
| round: "get_car s args = Inr c \<Longrightarrow> ev env c s = Inr (v, s1) \<Longrightarrow> v \<noteq> NilP \<Longrightarrow>
     get_cdr s1 args = Inr body \<Longrightarrow> eval_args ev j env body s1 = Inr (r, s2) \<Longrightarrow>
     while_sem ev env args s2 s' \<Longrightarrow> while_sem ev env args s s'"

code_pred while_sem .

text \<open>
  \<open>list_at s p xs\<close>: in the state \<open>s\<close>, \<open>p\<close> is a proper list, a chain of cells
  ending in \<^verbatim>\<open>Nil\<close>, whose \<^verbatim>\<open>car\<close> fields are \<open>xs\<close>.
\<close>

fun list_at :: "state \<Rightarrow> ptr \<Rightarrow> ptr list \<Rightarrow> bool" where
  "list_at s p [] = (p = NilP)"
| "list_at s p (x # xs) =
     (case deref s p of Some (OCons a d) \<Rightarrow> a = x \<and> list_at s d xs | _ \<Rightarrow> False)"

text \<open>
  The example for \<^verbatim>\<open>defun\<close>: the state after reading \<^verbatim>\<open>(defun f (x) x)\<close>, in
  which the form \<^verbatim>\<open>(define f (lambda (x) x))\<close> is built as well, over the same
  name, parameter list and body (the objects \<open>23\<close>, \<open>26\<close> and \<open>29\<close>). The result
  is the argument list of the \<^verbatim>\<open>defun\<close>, the argument list of the \<^verbatim>\<open>define\<close>,
  and the state.
\<close>

definition defun_example :: "ptr \<times> ptr \<times> state" where
  "defun_example =
     (case load ''(defun f (x) x)'' of
        (e, s) \<Rightarrow>
          (case new_object (OSymbol ''lambda'') s of
             (lam, s1) \<Rightarrow>
               (case cons lam (Ref 27) s1 of
                  (call, s2) \<Rightarrow>
                    (case cons call NilP s2 of
                       (tl1, s3) \<Rightarrow>
                         (case cons (Ref 23) tl1 s3 of
                            (form, s4) \<Rightarrow> (Ref 24, form, s4))))))"

section \<open>What a run may change\<close>

text \<open>
  \<open>ext s s'\<close>: the state \<open>s'\<close> has every object and every frame of \<open>s\<close>, at the
  same place; an object of \<open>s\<close> that is not a cell is unchanged in \<open>s'\<close>, and a cell
  is still a cell (its fields may have changed). Nothing in core.c frees an object or
  writes to an integer, a symbol, a primitive or a closure after its creation.
  \<open>ext_ev ev\<close> says that every run of the evaluator \<open>ev\<close> that returns extends the
  state in this sense.
\<close>

definition ext :: "state \<Rightarrow> state \<Rightarrow> bool" where
  "ext s s' \<longleftrightarrow>
     length (heap s) \<le> length (heap s') \<and> length (envs s) \<le> length (envs s') \<and>
     (\<forall>a<length (heap s).
        case heap s ! a of
          OCons x d \<Rightarrow> (case heap s' ! a of OCons x' d' \<Rightarrow> True | _ \<Rightarrow> False)
        | ob \<Rightarrow> heap s' ! a = ob)"

definition ext_ev :: "evaluator \<Rightarrow> bool" where
  "ext_ev ev \<longleftrightarrow> (\<forall>env e s v s'. ev env e s = Inr (v, s') \<longrightarrow> ext s s')"

text \<open>
  The example for the primitives that read pairs: the expression
  \<^verbatim>\<open>(car (setcar p 5))\<close>, read in the initial environment, in a state whose global
  frame also binds \<^verbatim>\<open>p\<close> to the pair (object \<open>31\<close>) of the integer \<open>1\<close> and
  \<^verbatim>\<open>Nil\<close>.
\<close>

definition setcar_example :: "ptr \<times> state" where
  "setcar_example =
     (case load ''(car (setcar p 5))'' of
        (e, s) \<Rightarrow>
          (case new_object (OInt 1) s of
             (i, s1) \<Rightarrow>
               (case cons i NilP s1 of
                  (c, s2) \<Rightarrow>
                    (case ht_insert 0 ''p'' c s2 of Inl er \<Rightarrow> (e, s2) | Inr s3 \<Rightarrow> (e, s3)))))"

text \<open>
  \<open>args_state f ev k env args s\<close> is the state in which the primitive \<open>f\<close> has
  evaluated its arguments and done nothing else: \<^verbatim>\<open>quote\<close> evaluates nothing,
  \<^verbatim>\<open>println\<close> calls \<^verbatim>\<open>eval\<close> on its first argument, the others call
  \<^verbatim>\<open>eval_args\<close>. \<open>same_objects s s1 s'\<close>: every object of \<open>s\<close> is in \<open>s'\<close> what it
  is in \<open>s1\<close>.
\<close>

definition args_state ::
  "primitive \<Rightarrow> evaluator \<Rightarrow> nat \<Rightarrow> nat \<Rightarrow> ptr \<Rightarrow> state \<Rightarrow> error + state" where
  "args_state f ev k env args s =
     (if f = P_quote then Inr s
      else if f = P_println then
        bnd (get_car s args) (\<lambda>e. bnd (ev env e s) (\<lambda>(v, s1). Inr s1))
      else bnd (eval_args ev k env args s) (\<lambda>(vs, s1). Inr s1))"

definition reading_primitives :: "primitive list" where
  "reading_primitives =
     [P_car, P_cdr, P_cons, P_plus, P_minus, P_multi, P_eq, P_lt, P_gt, P_obj_eq,
      P_quote, P_println]"

definition same_objects :: "state \<Rightarrow> state \<Rightarrow> state \<Rightarrow> bool" where
  "same_objects s s1 s' \<longleftrightarrow> (\<forall>a<length (heap s). heap s' ! a = heap s1 ! a)"

text \<open>
  \<open>bind_all ns vs h\<close>: the table \<open>h\<close> after inserting, from left to right, each name
  of \<open>ns\<close> with the value at the same position of \<open>vs\<close>.
\<close>

definition bind_all :: "string list \<Rightarrow> ptr list \<Rightarrow> (string \<times> ptr) list \<Rightarrow> (string \<times> ptr) list" where
  "bind_all ns vs h = fold (\<lambda>(nm, v). AList.update nm v) (zip ns vs) h"

text \<open>
  Two examples for closures. \<open>closure_example\<close> is the state in which the operator
  of \<^verbatim>\<open>((lambda (n) (+ n 1)) 41)\<close> (object \<open>22\<close>) has been evaluated to a closure
  (object \<open>36\<close>); the argument list is object \<open>35\<close>. \<open>scoping_example\<close> defines
  \<^verbatim>\<open>x\<close> as \<open>5\<close> globally, a function \<^verbatim>\<open>f\<close> that adds \<^verbatim>\<open>x\<close> to its argument, and
  a function \<^verbatim>\<open>g\<close> that has a parameter \<^verbatim>\<open>x\<close> and calls \<^verbatim>\<open>(f 10)\<close>; then it
  calls \<^verbatim>\<open>(g 100)\<close>.
\<close>

definition closure_example :: state where
  "closure_example = state_of (eval 3 0 (Ref 22) (snd (load ''((lambda (n) (+ n 1)) 41)'')))"

definition scoping_example :: "ptr \<times> state" where
  "scoping_example =
     load ''(progn (define x 5) (define f (lambda (n) (+ n x))) (define g (lambda (x) (f 10))) (g 100))''"

section \<open>Numbers and texts\<close>

text \<open>
  The base-10 number that a sequence of digit characters forms, most significant
  digit first; no wrap-around.
\<close>

definition decimal :: "string \<Rightarrow> int" where
  "decimal ds = foldl (\<lambda>v c. v * 10 + (of_char c - 48)) 0 ds"

section \<open>Printing and reading back\<close>

text \<open>
  The values that \<^verbatim>\<open>print\<close> writes as a text of atoms and parentheses, as trees:
  an integer, a symbol with its name, the two constants, and a chain of cells that
  ends in \<^verbatim>\<open>Nil\<close> with the trees of its \<^verbatim>\<open>car\<close> fields.
\<close>

datatype sx = SInt int | SSym string | SNil | STrue | SList "sx list"

text \<open>
  \<open>reprb lo b h p t\<close>: in the heap \<open>h\<close> the object at \<open>p\<close> is the tree \<open>t\<close>, and
  every object of it has an address from \<open>lo\<close> up to, not including, \<open>b\<close>.
  \<open>repr s p t\<close> is this for the whole heap of the state \<open>s\<close>.
\<close>

fun reprb :: "nat \<Rightarrow> nat \<Rightarrow> obj list \<Rightarrow> ptr \<Rightarrow> sx \<Rightarrow> bool"
  and reprb_list :: "nat \<Rightarrow> nat \<Rightarrow> obj list \<Rightarrow> ptr \<Rightarrow> sx list \<Rightarrow> bool" where
  "reprb lo b h p (SInt i) =
     (case p of Ref a \<Rightarrow> lo \<le> a \<and> a < b \<and> a < length h \<and> h ! a = OInt i | _ \<Rightarrow> False)"
| "reprb lo b h p (SSym nm) =
     (case p of Ref a \<Rightarrow> lo \<le> a \<and> a < b \<and> a < length h \<and> h ! a = OSymbol nm | _ \<Rightarrow> False)"
| "reprb lo b h p SNil = (p = NilP)"
| "reprb lo b h p STrue = (p = TrueP)"
| "reprb lo b h p (SList ts) = (ts \<noteq> [] \<and> reprb_list lo b h p ts)"
| "reprb_list lo b h p [] = (p = NilP)"
| "reprb_list lo b h p (t # ts) =
     (case p of
        Ref a \<Rightarrow>
          lo \<le> a \<and> a < b \<and> a < length h \<and>
          (case h ! a of
             OCons x d \<Rightarrow> reprb lo b h x t \<and> reprb_list lo b h d ts
           | _ \<Rightarrow> False)
      | _ \<Rightarrow> False)"

definition repr :: "state \<Rightarrow> ptr \<Rightarrow> sx \<Rightarrow> bool" where
  "repr s p t = reprb 0 (length (heap s)) (heap s) p t"

text \<open>
  The text of a tree: what the \<^verbatim>\<open>printf\<close> calls of \<^verbatim>\<open>print\<close> write for it, with
  \<open>show_tail\<close> for the elements after the first, each behind one space.
\<close>

fun show_sx :: "sx \<Rightarrow> string" and show_tail :: "sx list \<Rightarrow> string" where
  "show_sx (SInt i) = show_int i"
| "show_sx (SSym nm) = nm"
| "show_sx SNil = ''Nil''"
| "show_sx STrue = ''True''"
| "show_sx (SList []) = ''()''"
| "show_sx (SList (t # ts)) = ''('' @ show_sx t @ show_tail ts @ '')''"
| "show_tail [] = []"
| "show_tail (t # ts) = '' '' @ show_sx t @ show_tail ts"

text \<open>
  \<open>printed k p s\<close> is the text that one call of \<^verbatim>\<open>print\<close> on \<open>p\<close> writes in the
  state \<open>s\<close>. \<open>reprint ip k v s\<close> prints \<open>v\<close>, gives that text to \<^verbatim>\<open>read\<close> as the
  whole input, and prints the object that \<^verbatim>\<open>read\<close> returns; \<open>ip\<close> is the sign flag
  of the digit branch of \<^verbatim>\<open>read\<close>, and \<open>k\<close> bounds the loops.
\<close>

definition printed :: "nat \<Rightarrow> ptr \<Rightarrow> state \<Rightarrow> error + string" where
  "printed k p s = bnd (print k p (s\<lparr>out := []\<rparr>)) (\<lambda>s'. Inr (out s'))"

definition reprint :: "bool \<Rightarrow> nat \<Rightarrow> ptr \<Rightarrow> state \<Rightarrow> error + string" where
  "reprint ip k v s =
     bnd (printed k v s) (\<lambda>txt.
     bnd (read ip k txt s) (\<lambda>(p, rest, s').
     printed k p s'))"

text \<open>
  The characters that the loop of \<^verbatim>\<open>read_symbol\<close> takes; the names that \<^verbatim>\<open>read\<close>
  sends to \<^verbatim>\<open>read_symbol\<close> and that \<^verbatim>\<open>read_symbol\<close> takes whole: not empty, at
  most \<^verbatim>\<open>SYMBOL_MAX_LENGTH\<close> characters, all of them of that kind, not starting
  with a digit nor with a minus sign before a digit; and the inputs at whose first
  character the loops of \<^verbatim>\<open>read_symbol\<close> and \<^verbatim>\<open>read_number\<close> stop.
\<close>

definition symbol_char :: "char \<Rightarrow> bool" where
  "symbol_char c = (isalnum (Some c) \<or> c \<in> set symbol_special_chars)"

definition bare_symbol :: "string \<Rightarrow> bool" where
  "bare_symbol nm \<longleftrightarrow>
     nm \<noteq> [] \<and> length nm \<le> SYMBOL_MAX_LENGTH \<and> (\<forall>c\<in>set nm. symbol_char c) \<and>
     \<not> isdigit (peek nm) \<and> \<not> (peek nm = Some CHR ''-'' \<and> isdigit (peek (tl nm)))"

definition ends_token :: "string \<Rightarrow> bool" where
  "ends_token rest \<longleftrightarrow> \<not> isalnum (peek rest) \<and> \<not> is_special (peek rest)"

text \<open>
  \<^verbatim>\<open>read\<close> makes a symbol of the texts \<^verbatim>\<open>Nil\<close> and \<^verbatim>\<open>True\<close>: \<open>norm t\<close> is the tree
  of the object that reading the text of \<open>t\<close> builds. \<open>readable t\<close>: the integers
  of \<open>t\<close> have a magnitude below \<open>2 ^ 31\<close>, so that the loop of \<^verbatim>\<open>read_number\<close>
  never leaves the range of \<^verbatim>\<open>int\<close>; its symbols have names that \<^verbatim>\<open>read_symbol\<close>
  takes whole, and its lists are not empty.
\<close>

fun norm :: "sx \<Rightarrow> sx" where
  "norm SNil = SSym ''Nil''"
| "norm STrue = SSym ''True''"
| "norm (SList ts) = SList (map norm ts)"
| "norm (SInt i) = SInt i"
| "norm (SSym nm) = SSym nm"

fun readable :: "sx \<Rightarrow> bool" where
  "readable (SInt i) = (- 2147483648 < i \<and> i < 2147483648)"
| "readable (SSym nm) = bare_symbol nm"
| "readable SNil = True"
| "readable STrue = True"
| "readable (SList ts) = (ts \<noteq> [] \<and> (\<forall>t\<in>set ts. readable t))"

text \<open>
  \<open>seg lo h p us l\<close>: the list that \<^verbatim>\<open>read_list\<close> has built so far. The chain of
  cells from \<open>p\<close> has the trees \<open>us\<close> in its \<^verbatim>\<open>car\<close> fields and ends in the cell
  \<open>l\<close>, whose \<^verbatim>\<open>cdr\<close> is \<^verbatim>\<open>Nil\<close>; the cells have increasing addresses from
  \<open>lo\<close> on, and every element lies below its cell.
\<close>

fun seg :: "nat \<Rightarrow> obj list \<Rightarrow> ptr \<Rightarrow> sx list \<Rightarrow> nat \<Rightarrow> bool" where
  "seg lo h p [] l = False"
| "seg lo h p [u] l =
     (p = Ref l \<and> lo \<le> l \<and> l < length h \<and>
      (case h ! l of OCons x d \<Rightarrow> d = NilP \<and> reprb lo l h x u | _ \<Rightarrow> False))"
| "seg lo h p (u # u' # us) l =
     (case p of
        Ref a \<Rightarrow>
          lo \<le> a \<and> a < length h \<and> a < l \<and>
          (case h ! a of
             OCons x d \<Rightarrow>
               reprb lo a h x u \<and> (case d of Ref a' \<Rightarrow> a < a' | _ \<Rightarrow> False)
               \<and> seg lo h d (u' # us) l
           | _ \<Rightarrow> False)
      | _ \<Rightarrow> False)"

text \<open>
  \<open>reads_back t\<close>: from an input that starts with the text of \<open>t\<close>, followed by a
  character that ends a token, \<^verbatim>\<open>read\<close> returns an object that is the tree
  \<open>norm t\<close>, made of new objects only, and leaves the rest of the input.
\<close>

definition reads_back :: "sx \<Rightarrow> bool" where
  "reads_back t \<longleftrightarrow>
     (\<forall>rest s k. ends_token rest \<longrightarrow> length (show_sx t) < k \<longrightarrow>
        (\<exists>p h. read True k (show_sx t @ rest) s = Inr (p, rest, s\<lparr>heap := heap s @ h\<rparr>)
           \<and> reprb (length (heap s)) (length (heap s) + length h) (heap s @ h) p (norm t)))"

section \<open>Evaluation in order and cells that only a loop knows\<close>

text \<open>
  \<open>valid s p\<close>: the pointer \<open>p\<close> is \<^verbatim>\<open>NULL\<close>, one of the two static objects, or an
  object of the heap of \<open>s\<close>. \<open>closed s\<close>: every pointer that an object of the heap
  holds or a frame binds is valid, so that nothing points to an object that
  \<^verbatim>\<open>malloc\<close> has not returned yet.
\<close>

definition valid :: "state \<Rightarrow> ptr \<Rightarrow> bool" where
  "valid s p = (case p of Ref a \<Rightarrow> a < length (heap s) | _ \<Rightarrow> True)"

definition valid_obj :: "state \<Rightarrow> obj \<Rightarrow> bool" where
  "valid_obj s ob =
     (case ob of
        OCons a d \<Rightarrow> valid s a \<and> valid s d
      | OFunction ps b \<Rightarrow> valid s ps \<and> valid s b
      | _ \<Rightarrow> True)"

definition closed :: "state \<Rightarrow> bool" where
  "closed s \<longleftrightarrow>
     (\<forall>ob\<in>set (heap s). valid_obj s ob) \<and>
     (\<forall>fr\<in>set (envs s). \<forall>b\<in>set (ht fr). valid s (snd b))"

text \<open>
  The cells of the list that \<^verbatim>\<open>eval_args\<close> is building are known to its locals
  \<^verbatim>\<open>first\<close> and \<^verbatim>\<open>last\<close> only. For a set \<open>P\<close> of addresses: \<open>okp P s p\<close> says that
  \<open>p\<close> is valid and not in \<open>P\<close>; \<open>priv P s\<close> that no object outside \<open>P\<close> and no
  frame holds a pointer into \<open>P\<close>; \<open>keeps P s s'\<close> that \<open>s'\<close> is such a state again,
  with a heap that is not shorter and with the objects at \<open>P\<close> as they are in \<open>s\<close>.
  \<open>priv_ev P ev\<close>: every run of the evaluator \<open>ev\<close> that starts in such a state, on
  an expression outside \<open>P\<close>, and returns, keeps \<open>P\<close> and returns a value outside
  \<open>P\<close>; \<open>good P s r\<close> is this for one result \<open>r\<close> of a run from \<open>s\<close>.
\<close>

definition okp :: "nat set \<Rightarrow> state \<Rightarrow> ptr \<Rightarrow> bool" where
  "okp P s p = (case p of Ref a \<Rightarrow> a < length (heap s) \<and> a \<notin> P | _ \<Rightarrow> True)"

definition ok_obj :: "nat set \<Rightarrow> state \<Rightarrow> obj \<Rightarrow> bool" where
  "ok_obj P s ob =
     (case ob of
        OCons a d \<Rightarrow> okp P s a \<and> okp P s d
      | OFunction ps b \<Rightarrow> okp P s ps \<and> okp P s b
      | _ \<Rightarrow> True)"

definition priv :: "nat set \<Rightarrow> state \<Rightarrow> bool" where
  "priv P s \<longleftrightarrow>
     (\<forall>a<length (heap s). a \<notin> P \<longrightarrow> ok_obj P s (heap s ! a)) \<and>
     (\<forall>fr\<in>set (envs s). \<forall>b\<in>set (ht fr). okp P s (snd b)) \<and>
     (\<forall>a\<in>P. a < length (heap s))"

definition keeps :: "nat set \<Rightarrow> state \<Rightarrow> state \<Rightarrow> bool" where
  "keeps P s s' \<longleftrightarrow>
     priv P s' \<and> length (heap s) \<le> length (heap s') \<and> (\<forall>a\<in>P. heap s' ! a = heap s ! a)"

definition priv_ev :: "nat set \<Rightarrow> evaluator \<Rightarrow> bool" where
  "priv_ev P ev \<longleftrightarrow>
     (\<forall>env e s v s'. priv P s \<longrightarrow> okp P s e \<longrightarrow> ev env e s = Inr (v, s') \<longrightarrow>
        keeps P s s' \<and> okp P s' v)"

definition good :: "nat set \<Rightarrow> state \<Rightarrow> error + ptr \<times> state \<Rightarrow> bool" where
  "good P s r \<longleftrightarrow> (\<forall>v s'. r = Inr (v, s') \<longrightarrow> keeps P s s' \<and> okp P s' v)"

text \<open>
  The words of the spec for the arguments of a closure, as a relation: evaluate
  every argument expression in the caller's environment, left to right, producing
  a list of values. \<open>args_in_order ev env e lastp s xs vs s'\<close>: from the state \<open>s\<close>,
  the expressions \<open>xs\<close> found in the cells of the list \<open>e\<close>, taken from the first to
  the last, are evaluated by \<open>ev\<close> with the environment \<open>env\<close>, each in the state
  that the one before left, and give the values \<open>vs\<close>, in this order, and the state
  \<open>s'\<close>. After each evaluation \<open>store_value\<close> puts the value into a new cell behind
  the cell \<open>lastp\<close> of the one before, which is the only change of the state between
  two evaluations; the next cell of \<open>e\<close> is read after that.
\<close>

definition store_value :: "ptr \<Rightarrow> ptr \<Rightarrow> state \<Rightarrow> error + ptr \<times> state" where
  "store_value lastp v s =
     (case cons v NilP s of
        (c, s1) \<Rightarrow>
          if lastp = NilP then Inr (c, s1)
          else bnd (set_cdr lastp c s1) (\<lambda>s2. Inr (c, s2)))"

inductive args_in_order ::
  "evaluator \<Rightarrow> nat \<Rightarrow> ptr \<Rightarrow> ptr \<Rightarrow> state \<Rightarrow> ptr list \<Rightarrow> ptr list \<Rightarrow> state \<Rightarrow> bool"
  for ev :: evaluator and env :: nat where
  no_more: "args_in_order ev env NilP lastp s [] [] s"
| next_arg: "e \<noteq> NilP \<Longrightarrow> get_car s e = Inr x \<Longrightarrow> ev env x s = Inr (v, s1) \<Longrightarrow>
     store_value lastp v s1 = Inr (c, s2) \<Longrightarrow> get_cdr s2 e = Inr d \<Longrightarrow>
     args_in_order ev env d c s2 xs vs s' \<Longrightarrow>
     args_in_order ev env e lastp s (x # xs) (v # vs) s'"

code_pred args_in_order .

text \<open>
  The words of the spec for the body: evaluate the body expressions in sequence,
  in one environment. \<open>body_in_order ev env e s xs vs s'\<close>: the expressions \<open>xs\<close> of
  the list \<open>e\<close> are evaluated by \<open>ev\<close> with \<open>env\<close>, one after the other, each in the
  state that the one before left, and give the values \<open>vs\<close> and the state \<open>s'\<close>.
\<close>

inductive body_in_order ::
  "evaluator \<Rightarrow> nat \<Rightarrow> ptr \<Rightarrow> state \<Rightarrow> ptr list \<Rightarrow> ptr list \<Rightarrow> state \<Rightarrow> bool"
  for ev :: evaluator and env :: nat where
  no_more: "body_in_order ev env NilP s [] [] s"
| next_expr: "e \<noteq> NilP \<Longrightarrow> get_car s e = Inr x \<Longrightarrow> ev env x s = Inr (v, s1) \<Longrightarrow>
     get_cdr s1 e = Inr d \<Longrightarrow> body_in_order ev env d s1 xs vs s' \<Longrightarrow>
     body_in_order ev env e s (x # xs) (v # vs) s'"

code_pred body_in_order .

section \<open>Basic facts\<close>

lemma bnd_Inl [simp]: "bnd (Inl e) f = Inl e"
  by (simp add: bnd_def)

lemma bnd_Inr [simp]: "bnd (Inr x) f = f x"
  by (simp add: bnd_def)

lemma bnd_eq_Inr: "bnd m f = Inr y \<longleftrightarrow> (\<exists>x. m = Inr x \<and> f x = Inr y)"
  by (cases m) simp_all

lemma err_not_Inr [simp]: "err msg \<noteq> Inr x"
  by (simp add: err_def)

declare count_loop.simps [simp del] env_lookup.simps [simp del] eval_args_loop.simps [simp del]
  progn_loop.simps [simp del] bind_params.simps [simp del] check_params.simps [simp del]
  primitive_and.simps [simp del] primitive_or.simps [simp del] minus_loop.simps [simp del]
  multi_loop.simps [simp del] plus_loop.simps [simp del] while_loop.simps [simp del]

lemma deref_cons [simp]:
  "deref s p = Some (OCons a d) \<Longrightarrow> get_car s p = Inr a"
  "deref s p = Some (OCons a d) \<Longrightarrow> get_cdr s p = Inr d"
  "deref s p = Some (OCons a d) \<Longrightarrow> otype s p = Inr OT_CONS"
  by (auto simp: get_car_def get_cdr_def otype_def deref_def split: ptr.splits)

lemma deref_symbol [simp]:
  "deref s p = Some (OSymbol nm) \<Longrightarrow> get_name s p = Inr nm"
  "deref s p = Some (OSymbol nm) \<Longrightarrow> otype s p = Inr OT_SYMBOL"
  by (auto simp: get_name_def otype_def deref_def split: ptr.splits)

lemma deref_primitive [simp]:
  "deref s p = Some (OPrimitive f) \<Longrightarrow> get_function s p = Inr f"
  "deref s p = Some (OPrimitive f) \<Longrightarrow> otype s p = Inr OT_PRIMITIVE"
  by (auto simp: get_function_def otype_def deref_def split: ptr.splits)

lemma deref_int [simp]:
  "deref s p = Some (OInt v) \<Longrightarrow> get_value s p = Inr v"
  "deref s p = Some (OInt v) \<Longrightarrow> otype s p = Inr OT_INT"
  by (auto simp: get_value_def otype_def deref_def split: ptr.splits)

lemma deref_function [simp]:
  "deref s p = Some (OFunction ps b) \<Longrightarrow> get_params s p = Inr ps"
  "deref s p = Some (OFunction ps b) \<Longrightarrow> get_body s p = Inr b"
  "deref s p = Some (OFunction ps b) \<Longrightarrow> otype s p = Inr OT_FUNCTION"
  by (auto simp: get_params_def get_body_def otype_def deref_def split: ptr.splits)

lemma deref_not_Null: "deref s p = Some ob \<Longrightarrow> p \<noteq> Null"
  by (auto simp: deref_def)

lemma deref_static [simp]: "deref s Null = None" "deref s NilP = None" "deref s TrueP = None"
  by (simp_all add: deref_def)

lemma otype_static [simp]:
  "otype s Null = Inl Undefined" "otype s NilP = Inr OT_NIL" "otype s TrueP = Inr OT_TRUE"
  by (simp_all add: otype_def)

lemma get_static [simp]:
  "get_car s NilP = Inr Null" "get_cdr s NilP = Inr Null"
  "get_car s Null = Inl Undefined" "get_cdr s Null = Inl Undefined"
  "get_car s TrueP = Inr Null" "get_cdr s TrueP = Inr Null"
  by (simp_all add: get_car_def get_cdr_def)

section \<open>The empty conjunction and disjunction\<close>

lemma primitive_and_Nil: "primitive_and ev k env NilP s = Inr (TrueP, s)"
  by (simp add: primitive_and.simps)

lemma primitive_or_Nil: "primitive_or ev k env NilP s = Inr (NilP, s)"
  by (simp add: primitive_or.simps)

text \<open>
  C10. An expression whose operator is a symbol bound to the primitive \<^verbatim>\<open>and\<close>
  (or to \<^verbatim>\<open>or\<close>) and whose argument list is empty evaluates to \<^verbatim>\<open>True\<close> (to
  \<^verbatim>\<open>Nil\<close>), in every environment and every state, and the state after the call is
  the state before it: nothing was evaluated, allocated or printed. The primitives
  themselves return these values on \<^verbatim>\<open>Nil\<close> for every evaluator and every bound
  (\<open>primitive_and_Nil\<close>, \<open>primitive_or_Nil\<close>).
\<close>

theorem and_or_empty:
  assumes "deref s e = Some (OCons f NilP)"
    and "deref s f = Some (OSymbol nm)"
    and "env_lookup n s env nm = Inr fn"
    and "deref s fn = Some (OPrimitive p)"
    and "p = P_and \<or> p = P_or"
  shows "eval (Suc (Suc n)) env e s = Inr (if p = P_and then TrueP else NilP, s)"
proof -
  have f: "eval (Suc n) env f s = Inr (fn, s)"
    using assms(2,3) deref_not_Null[OF assms(2)] by simp
  have a: "apply_fn (Suc n) env fn NilP s = Inr (if p = P_and then TrueP else NilP, s)"
    using assms(4,5) by (auto simp: call_primitive_def primitive_and_Nil primitive_or_Nil)
  show ?thesis
    using assms(1) deref_not_Null[OF assms(1)] f a assms(4)
    by (simp del: apply_fn.simps)
qed

theorem and_or_empty_witness:
  "eval 2 0 (fst (load ''(and)'')) (snd (load ''(and)'')) = Inr (TrueP, snd (load ''(and)''))
   \<and> eval 2 0 (fst (load ''(or)'')) (snd (load ''(or)'')) = Inr (NilP, snd (load ''(or)''))"
proof -
  have a1: "deref (snd (load ''(and)'')) (fst (load ''(and)'')) = Some (OCons (Ref 21) NilP)"
    by code_simp
  have a2: "deref (snd (load ''(and)'')) (Ref 21) = Some (OSymbol ''and'')"
    by code_simp
  have a3: "env_lookup 0 (snd (load ''(and)'')) 0 ''and'' = Inr (Ref 0)"
    by code_simp
  have a4: "deref (snd (load ''(and)'')) (Ref 0) = Some (OPrimitive P_and)"
    by code_simp
  have o1: "deref (snd (load ''(or)'')) (fst (load ''(or)'')) = Some (OCons (Ref 21) NilP)"
    by code_simp
  have o2: "deref (snd (load ''(or)'')) (Ref 21) = Some (OSymbol ''or'')"
    by code_simp
  have o3: "env_lookup 0 (snd (load ''(or)'')) 0 ''or'' = Inr (Ref 14)"
    by code_simp
  have o4: "deref (snd (load ''(or)'')) (Ref 14) = Some (OPrimitive P_or)"
    by code_simp
  show ?thesis
    using and_or_empty[OF a1 a2 a3 a4] and_or_empty[OF o1 o2 o3 o4]
    by (simp add: numeral_2_eq_2)
qed

lemma bnd_err [simp]: "bnd (err msg) f = err msg"
  by (simp add: err_def)

lemma eval_args_Nil: "eval_args ev k env NilP s = Inr (NilP, s)"
  by (simp add: eval_args_def eval_args_loop.simps)

section \<open>car and cdr without an argument\<close>

text \<open>
  C6. \<^verbatim>\<open>primitive_car\<close> and \<^verbatim>\<open>primitive_cdr\<close> test \<^verbatim>\<open>args->car->type\<close> before
  anything else. With no argument the evaluated list is \<^verbatim>\<open>Nil\<close>, whose \<^verbatim>\<open>car\<close>
  member is \<^verbatim>\<open>NULL\<close>, and the test reads the tag of the object at \<^verbatim>\<open>NULL\<close>: the
  call is undefined behaviour and not the error
  \<^verbatim>\<open>car accepts single list argument only\<close>, which \<^verbatim>\<open>(car 5)\<close> does raise. The
  evaluations are those of \<^verbatim>\<open>(car)\<close>, \<^verbatim>\<open>(cdr)\<close> and \<^verbatim>\<open>(car 5)\<close> in the initial
  environment.
\<close>

theorem car_cdr_without_argument:
  "primitive_car ev k env NilP s = Inl Undefined
   \<and> primitive_cdr ev k env NilP s = Inl Undefined
   \<and> eval 3 0 (fst (load ''(car)'')) (snd (load ''(car)'')) = Inl Undefined
   \<and> eval 3 0 (fst (load ''(cdr)'')) (snd (load ''(cdr)'')) = Inl Undefined
   \<and> eval 3 0 (fst (load ''(car 5)'')) (snd (load ''(car 5)''))
       = Inl (Exit ''car accepts single list argument only'')"
proof -
  have 1: "primitive_car ev k env NilP s = Inl Undefined"
    by (simp add: primitive_car_def eval_args_Nil)
  have 2: "primitive_cdr ev k env NilP s = Inl Undefined"
    by (simp add: primitive_cdr_def eval_args_Nil)
  have 3: "eval 3 0 (fst (load ''(car)'')) (snd (load ''(car)'')) = Inl Undefined"
    by code_simp
  have 4: "eval 3 0 (fst (load ''(cdr)'')) (snd (load ''(cdr)'')) = Inl Undefined"
    by code_simp
  have 5: "eval 3 0 (fst (load ''(car 5)'')) (snd (load ''(car 5)''))
       = Inl (Exit ''car accepts single list argument only'')"
    by code_simp
  show ?thesis using 1 2 3 4 5 by blast
qed

section \<open>Closures with an empty body\<close>

lemma check_params_cells:
  "cells s p xs \<Longrightarrow> length xs \<le> k \<Longrightarrow> \<forall>x\<in>set xs. \<exists>t. otype s x = Inr t \<Longrightarrow>
   check_params k s p =
     (if \<forall>x\<in>set xs. otype s x = Inr OT_SYMBOL then Inr ()
      else err ''function parameter must be a symbol'')"
proof (induction xs arbitrary: p k)
  case Nil
  then show ?case
    by (subst check_params.simps) (auto split: sum.splits)
next
  case (Cons x xs)
  from Cons.prems(1) obtain d where d: "deref s p = Some (OCons x d)" and c: "cells s d xs"
    by (auto split: option.splits obj.splits)
  from Cons.prems(2) obtain k' where k: "k = Suc k'" and le: "length xs \<le> k'"
    by (cases k) auto
  from Cons.prems(3) obtain t where t: "otype s x = Inr t" by auto
  have ih: "check_params k' s d =
     (if \<forall>x\<in>set xs. otype s x = Inr OT_SYMBOL then Inr ()
      else err ''function parameter must be a symbol'')"
    using Cons.IH[OF c le] Cons.prems(3) by simp
  show ?case
    using d k t ih by (subst check_params.simps) (simp add: t)
qed

text \<open>
  C7, as the code has it. \<^verbatim>\<open>primitive_lambda\<close> hands \<^verbatim>\<open>args->car\<close> and
  \<^verbatim>\<open>args->cdr\<close> to \<^verbatim>\<open>create_function\<close>, which looks at the parameters only: when
  every parameter is a symbol the closure is built, with the parameter list and the
  body it was given, whatever the body is (the empty list included); when some
  parameter is not a symbol the call ends with
  \<^verbatim>\<open>function parameter must be a symbol\<close>. The bound \<open>k\<close> is at least the number
  of parameters.
\<close>

theorem lambda_accepts_any_body:
  assumes "deref s args = Some (OCons params body)"
    and "cells s params xs" and "length xs \<le> k"
    and "\<forall>x\<in>set xs. \<exists>t. otype s x = Inr t"
  shows "primitive_lambda ev k env args s =
     (if \<forall>x\<in>set xs. otype s x = Inr OT_SYMBOL
      then Inr (Ref (length (heap s)), s\<lparr>heap := heap s @ [OFunction params body]\<rparr>)
      else err ''function parameter must be a symbol'')"
  using assms(1) check_params_cells[OF assms(2,3,4)]
  by (simp add: primitive_lambda_def create_function_def new_object_def)

text \<open>
  The claim of C7 fails on \<^verbatim>\<open>(lambda (x))\<close>: in the initial environment it evaluates
  to a closure whose body is \<^verbatim>\<open>Nil\<close>.
\<close>

theorem lambda_empty_body_accepted:
  "value_of (eval 3 0 (fst (load ''(lambda (x))'')) (snd (load ''(lambda (x))'')))
     = Inr (Some (OFunction (Ref 24) NilP))"
  by code_simp

theorem lambda_accepts_any_body_witness:
  "primitive_lambda (eval 1) 1 0 (Ref 25) (snd (load ''(lambda (x))''))
    = Inr (Ref 26, (snd (load ''(lambda (x))''))
          \<lparr>heap := heap (snd (load ''(lambda (x))'')) @ [OFunction (Ref 24) NilP]\<rparr>)"
proof -
  have 1: "deref (snd (load ''(lambda (x))'')) (Ref 25) = Some (OCons (Ref 24) NilP)"
    by code_simp
  have 2: "cells (snd (load ''(lambda (x))'')) (Ref 24) [Ref 23]"
    by code_simp
  have 3: "length [Ref 23] \<le> (1::nat)" by simp
  have 5: "otype (snd (load ''(lambda (x))'')) (Ref 23) = Inr OT_SYMBOL" by code_simp
  have 4: "\<forall>x\<in>set [Ref 23]. \<exists>t. otype (snd (load ''(lambda (x))'')) x = Inr t"
    using 5 by simp
  have 6: "length (heap (snd (load ''(lambda (x))''))) = 26" by code_simp
  show ?thesis
    using lambda_accepts_any_body[OF 1 2 3 4, of "eval 1" 0] 5 6 by simp
qed

section \<open>Printing a pair whose chain does not end in Nil\<close>

text \<open>
  C8. For the pair built by \<^verbatim>\<open>(cons 1 2)\<close> the loop of \<^verbatim>\<open>print\<close> prints the
  \<^verbatim>\<open>car\<close>, sees that the \<^verbatim>\<open>cdr\<close> is not \<^verbatim>\<open>Nil\<close>, prints a space, moves to the
  \<^verbatim>\<open>cdr\<close> and reads the \<^verbatim>\<open>car\<close> field of that object, an integer: the behaviour
  is undefined, and nothing says that \<^verbatim>\<open>2\<close> is printed as the last element. The
  first evaluation is \<^verbatim>\<open>(println (cons 1 2))\<close> in the initial environment, the
  second is \<^verbatim>\<open>print\<close> on the pair alone.
\<close>

theorem print_improper_pair:
  "eval 10 0 (fst (load ''(println (cons 1 2))'')) (snd (load ''(println (cons 1 2))''))
     = Inl Undefined
   \<and> print 10 (Ref 2) \<lparr>heap = [OInt 1, OInt 2, OCons (Ref 0) (Ref 1)], envs = [], out = []\<rparr>
     = Inl Undefined"
  by code_simp

section \<open>The while loop\<close>

lemma while_loop_0:
  "while_loop ev 0 env args s =
     bnd (get_car s args) (\<lambda>c.
     bnd (ev env c s) (\<lambda>(v, s1). if v \<noteq> NilP then Inl OutOfFuel else Inr (NilP, s1)))"
  by (subst while_loop.simps) (simp cong: if_cong)

lemma while_loop_Suc:
  "while_loop ev (Suc k) env args s =
     bnd (get_car s args) (\<lambda>c.
     bnd (ev env c s) (\<lambda>(v, s1).
     if v \<noteq> NilP then
       bnd (get_cdr s1 args) (\<lambda>body.
       bnd (eval_args ev (Suc k) env body s1) (\<lambda>(r, s2).
       while_loop ev k env args s2))
     else Inr (NilP, s1)))"
  by (subst while_loop.simps) (simp cong: if_cong)

lemma while_loop_sem:
  "while_loop ev k env args s = Inr (v, s') \<Longrightarrow> v = NilP \<and> while_sem ev env args s s'"
proof (induction k arbitrary: s)
  case 0
  then show ?case
    by (auto simp: while_loop_0 bnd_eq_Inr split: if_splits intro: while_sem.stop)
next
  case (Suc k)
  from Suc.prems obtain c w s1 where c: "get_car s args = Inr c" and w: "ev env c s = Inr (w, s1)"
    and rest: "(if w \<noteq> NilP then bnd (get_cdr s1 args) (\<lambda>body.
            bnd (eval_args ev (Suc k) env body s1) (\<lambda>(r, s2). while_loop ev k env args s2))
          else Inr (NilP, s1)) = Inr (v, s')"
    by (auto simp: while_loop_Suc bnd_eq_Inr)
  show ?case
  proof (cases "w = NilP")
    case True
    with rest c w show ?thesis by (auto intro: while_sem.stop)
  next
    case False
    with rest obtain body r s2 where b: "get_cdr s1 args = Inr body"
      and ea: "eval_args ev (Suc k) env body s1 = Inr (r, s2)"
      and wl: "while_loop ev k env args s2 = Inr (v, s')"
      by (auto simp: bnd_eq_Inr)
    from Suc.IH[OF wl] have "v = NilP" and "while_sem ev env args s2 s'" by auto
    with c w False b ea show ?thesis by (auto intro: while_sem.round)
  qed
qed



section \<open>Objects in a changed heap\<close>

lemma deref_heap_append [simp]:
  "deref (s\<lparr>heap := heap s @ xs\<rparr>) p =
     (case deref s p of
        Some ob \<Rightarrow> Some ob
      | None \<Rightarrow>
          (case p of
             Ref a \<Rightarrow>
               if length (heap s) \<le> a \<and> a < length (heap s) + length xs
               then Some (xs ! (a - length (heap s))) else None
           | _ \<Rightarrow> None))"
  by (auto simp: deref_def nth_append split: ptr.splits)

lemma deref_envs_update [simp]: "deref (s\<lparr>envs := E\<rparr>) p = deref s p"
  by (simp add: deref_def split: ptr.splits)

lemma deref_out_update [simp]: "deref (s\<lparr>out := E\<rparr>) p = deref s p"
  by (simp add: deref_def split: ptr.splits)

lemma deref_Some: "deref s p = Some ob \<longleftrightarrow> (\<exists>a. p = Ref a \<and> a < length (heap s) \<and> heap s ! a = ob)"
  by (auto simp: deref_def split: ptr.splits)

section \<open>defun and define with lambda\<close>

lemma count_loop_list:
  "list_at s p xs \<Longrightarrow> length xs \<le> k \<Longrightarrow> count_loop k s p c = Inr (c + int (length xs))"
proof (induction xs arbitrary: p k c)
  case Nil
  then show ?case by (subst count_loop.simps) simp
next
  case (Cons x xs)
  from Cons.prems(1) obtain d where d: "deref s p = Some (OCons x d)" and l: "list_at s d xs"
    by (auto split: option.splits obj.splits)
  from Cons.prems(2) obtain k' where k: "k = Suc k'" and le: "length xs \<le> k'"
    by (cases k) auto
  show ?case
    using d k Cons.IH[OF l le, of "c + 1"] by (subst count_loop.simps) simp
qed

lemma count_list: "list_at s p xs \<Longrightarrow> length xs \<le> k \<Longrightarrow> count k s p = Inr (int (length xs))"
  using count_loop_list[of s p xs k 0] by (simp add: count_def)


lemma deref_heap_update [simp]:
  "deref (s\<lparr>heap := (heap s)[a := ob]\<rparr>) p =
     (if p = Ref a \<and> a < length (heap s) then Some ob else deref s p)"
  by (auto simp: deref_def split: ptr.splits)


text \<open>
  C4. Let \<open>args\<close> be the argument list of a \<^verbatim>\<open>defun\<close>: the name \<open>nam\<close>, a symbol,
  followed by \<open>rest\<close>, the parameter list \<open>params\<close> followed by the body. Let
  \<open>form\<close> be the argument list of \<^verbatim>\<open>(define name (lambda params body...))\<close> over
  the same name and the same \<open>rest\<close>, in an environment where \<^verbatim>\<open>lambda\<close> is bound
  to the primitive. Called from the same state, \<^verbatim>\<open>primitive_defun\<close> on \<open>args\<close>
  and \<^verbatim>\<open>primitive_define\<close> on \<open>form\<close> (each as \<open>eval\<close> calls it) return the same
  pointer, to a new closure over \<open>params\<close> and \<open>body\<close>, and leave the same frames:
  the current frame with the name bound to that closure, every other binding as it
  was. When a parameter is not a symbol both end with the same error. The heaps
  differ in the cell that \<^verbatim>\<open>primitive_defun\<close> allocates and stores into its own
  argument list.
\<close>

theorem defun_is_define_lambda:
  assumes args: "deref s args = Some (OCons nam rest)"
    and nam: "deref s nam = Some (OSymbol nm)"
    and rest: "deref s rest = Some (OCons params body)"
    and ps: "cells s params xs" "length xs \<le> Suc n" "\<forall>x\<in>set xs. \<exists>t. otype s x = Inr t"
    and env: "env < length (envs s)"
    and form: "deref s form = Some (OCons nam tl1)" "deref s tl1 = Some (OCons call NilP)"
      "deref s call = Some (OCons lam rest)" "deref s lam = Some (OSymbol ''lambda'')"
    and lam: "env_lookup n s env ''lambda'' = Inr lp" "deref s lp = Some (OPrimitive P_lambda)"
    and a: "args = Ref a"
    and E: "E = (envs s)[env := (envs s ! env)\<lparr>ht := AList.update nm (Ref (length (heap s))) (ht (envs s ! env))\<rparr>]"
  shows "primitive_defun (eval (Suc (Suc n))) (Suc (Suc n)) env args s =
           (if \<forall>x\<in>set xs. otype s x = Inr OT_SYMBOL
            then Inr (Ref (length (heap s)),
                   s\<lparr>heap := (heap s @ [OFunction params body, OCons (Ref (length (heap s))) NilP])
                              [a := OCons nam (Ref (Suc (length (heap s))))],
                     envs := E\<rparr>)
            else err ''function parameter must be a symbol'')
       \<and> primitive_define (eval (Suc (Suc n))) (Suc (Suc n)) env form s =
           (if \<forall>x\<in>set xs. otype s x = Inr OT_SYMBOL
            then Inr (Ref (length (heap s)),
                   s\<lparr>heap := heap s @ [OFunction params body], envs := E\<rparr>)
            else err ''function parameter must be a symbol'')"
proof -
  let ?L = "length (heap s)"
  let ?ok = "\<forall>x\<in>set xs. otype s x = Inr OT_SYMBOL"
  have al: "a < ?L" and ha: "heap s ! a = OCons nam rest"
    using args a by (auto simp: deref_Some)
  have cf: "create_function (Suc (Suc n)) params body s =
      (if ?ok then Inr (Ref ?L, s\<lparr>heap := heap s @ [OFunction params body]\<rparr>)
       else err ''function parameter must be a symbol'')"
    using check_params_cells[OF ps(1) _ ps(3), of "Suc (Suc n)"] ps(2)
    by (simp add: create_function_def new_object_def)
  have cf': "create_function (Suc n) params body s =
      (if ?ok then Inr (Ref ?L, s\<lparr>heap := heap s @ [OFunction params body]\<rparr>)
       else err ''function parameter must be a symbol'')"
    using check_params_cells[OF ps(1) _ ps(3), of "Suc n"] ps(2)
    by (simp add: create_function_def new_object_def)
  have pl: "primitive_lambda ev (Suc (Suc n)) env rest s = create_function (Suc (Suc n)) params body s" for ev
    using rest by (simp add: primitive_lambda_def)
  have pl': "primitive_lambda ev (Suc n) env rest s = create_function (Suc n) params body s" for ev
    using rest by (simp add: primitive_lambda_def)
  \<comment> \<open>the define form\<close>
  have cnt_form: "count (Suc (Suc n)) s form = Inr 2"
    using count_list[of s form "[nam, call]" "Suc (Suc n)"] form by simp
  have ev_lam: "eval (Suc n) env lam s = Inr (lp, s)"
    using form(4) lam(1) deref_not_Null[OF form(4)] by simp
  have ev_call: "eval (Suc (Suc n)) env call s = create_function (Suc n) params body s"
    using form(3) deref_not_Null[OF form(3)] ev_lam lam(2) rest pl'
    apply (subst eval.simps(2))
    apply (simp del: eval.simps apply_fn.simps)
    apply (subst apply_fn.simps)
    apply (simp add: call_primitive_def del: eval.simps)
    done
  have def: "primitive_define (eval (Suc (Suc n))) (Suc (Suc n)) env form s =
           (if ?ok
            then Inr (Ref ?L, s\<lparr>heap := heap s @ [OFunction params body], envs := E\<rparr>)
            else err ''function parameter must be a symbol'')"
    using cnt_form form nam ev_call cf' env E
    by (simp add: primitive_define_def ht_insert_def del: eval.simps apply_fn.simps)
  \<comment> \<open>the defun form\<close>
  define F where "F = OFunction params body"
  define s1 where "s1 = s\<lparr>heap := heap s @ [F]\<rparr>"
  define s2 where "s2 = s1\<lparr>heap := heap s1 @ [OCons (Ref ?L) NilP]\<rparr>"
  define s3 where "s3 = s2\<lparr>heap := (heap s2)[a := OCons nam (Ref (Suc ?L))]\<rparr>"
  have nam_ne: "nam \<noteq> Ref a"
    using nam args a by auto
  have d2: "deref s2 args = Some (OCons nam rest)"
    using args by (simp add: s2_def s1_def)
  have l2: "a < length (heap s2)"
    using al by (simp add: s2_def s1_def)
  have sc: "set_cdr args (Ref (Suc ?L)) s2 = Inr s3"
    using d2 by (simp add: set_cdr_def a s3_def)
  have d3_args: "deref s3 args = Some (OCons nam (Ref (Suc ?L)))"
    using l2 by (simp add: s3_def a)
  have d3_c: "deref s3 (Ref (Suc ?L)) = Some (OCons (Ref ?L) NilP)"
    using al by (simp add: s3_def s2_def s1_def deref_def nth_append)
  have d3_f: "deref s3 (Ref ?L) = Some F"
    using al by (simp add: s3_def s2_def s1_def deref_def nth_append)
  have d3_nam: "deref s3 nam = Some (OSymbol nm)"
  proof -
    from nam obtain b where b: "nam = Ref b" "b < ?L" "heap s ! b = OSymbol nm"
      by (auto simp: deref_Some)
    with nam_ne have "b \<noteq> a" by simp
    with b show ?thesis
      by (simp add: s3_def s2_def s1_def deref_def nth_append)
  qed
  have cnt3: "count (Suc (Suc n)) s3 args = Inr 2"
    using count_list[of s3 args "[nam, Ref ?L]" "Suc (Suc n)"] d3_args d3_c by simp
  have ev3: "eval (Suc (Suc n)) env (Ref ?L) s3 = Inr (Ref ?L, s3)"
    using d3_f by (simp add: F_def)
  have env3: "env < length (envs s3)"
    using env by (simp add: s3_def s2_def s1_def)
  have pd: "primitive_define (eval (Suc (Suc n))) (Suc (Suc n)) env args s3 =
      Inr (Ref ?L, s3\<lparr>envs := (envs s3)[env := (envs s3 ! env)\<lparr>ht := AList.update nm (Ref ?L) (ht (envs s3 ! env))\<rparr>]\<rparr>)"
    using cnt3 d3_args d3_c d3_nam ev3 env3
    by (simp add: primitive_define_def ht_insert_def del: eval.simps apply_fn.simps)
  have fin: "s3\<lparr>envs := (envs s3)[env := (envs s3 ! env)\<lparr>ht := AList.update nm (Ref ?L) (ht (envs s3 ! env))\<rparr>]\<rparr>
      = s\<lparr>heap := (heap s @ [OFunction params body, OCons (Ref ?L) NilP])[a := OCons nam (Ref (Suc ?L))],
          envs := E\<rparr>"
    by (simp add: s3_def s2_def s1_def F_def E)
  have dfn: "primitive_defun (eval (Suc (Suc n))) (Suc (Suc n)) env args s =
           (if ?ok
            then Inr (Ref ?L,
                   s\<lparr>heap := (heap s @ [OFunction params body, OCons (Ref ?L) NilP])
                              [a := OCons nam (Ref (Suc ?L))],
                     envs := E\<rparr>)
            else err ''function parameter must be a symbol'')"
  proof (cases ?ok)
    case True
    have "primitive_lambda (eval (Suc (Suc n))) (Suc (Suc n)) env rest s = Inr (Ref ?L, s1)"
      using True pl cf by (simp add: s1_def F_def)
    moreover have "cons (Ref ?L) NilP s1 = (Ref (Suc ?L), s2)"
      by (simp add: cons_def new_object_def s2_def s1_def)
    ultimately have "primitive_defun (eval (Suc (Suc n))) (Suc (Suc n)) env args s
        = primitive_define (eval (Suc (Suc n))) (Suc (Suc n)) env args s3"
      using args sc by (simp add: primitive_defun_def)
    then show ?thesis using True pd fin by simp
  next
    case False
    have "primitive_lambda (eval (Suc (Suc n))) (Suc (Suc n)) env rest s
        = err ''function parameter must be a symbol''"
      using False pl[of "eval (Suc (Suc n))"] cf by (simp only: if_False)
    then have "primitive_defun (eval (Suc (Suc n))) (Suc (Suc n)) env args s
        = err ''function parameter must be a symbol''"
      using args by (simp add: primitive_defun_def)
    then show ?thesis using False by (simp only: if_False)
  qed
  show ?thesis using dfn def by blast
qed


theorem defun_is_define_lambda_witness:
  "primitive_defun (eval 2) 2 0 (Ref 24) (snd (snd defun_example)) =
     Inr (Ref 34, (snd (snd defun_example))
       \<lparr>heap := (heap (snd (snd defun_example)) @ [OFunction (Ref 26) (Ref 29), OCons (Ref 34) NilP])
                  [24 := OCons (Ref 23) (Ref 35)],
        envs := [(envs (snd (snd defun_example)) ! 0)
                   \<lparr>ht := AList.update ''f'' (Ref 34) (ht (envs (snd (snd defun_example)) ! 0))\<rparr>]\<rparr>)
   \<and> primitive_define (eval 2) 2 0 (Ref 33) (snd (snd defun_example)) =
     Inr (Ref 34, (snd (snd defun_example))
       \<lparr>heap := heap (snd (snd defun_example)) @ [OFunction (Ref 26) (Ref 29)],
        envs := [(envs (snd (snd defun_example)) ! 0)
                   \<lparr>ht := AList.update ''f'' (Ref 34) (ht (envs (snd (snd defun_example)) ! 0))\<rparr>]\<rparr>)"
proof -
  let ?s = "snd (snd defun_example)"
  have args: "deref ?s (Ref 24) = Some (OCons (Ref 23) (Ref 27))" by code_simp
  have nam: "deref ?s (Ref 23) = Some (OSymbol ''f'')" by code_simp
  have rest: "deref ?s (Ref 27) = Some (OCons (Ref 26) (Ref 29))" by code_simp
  have ps1: "cells ?s (Ref 26) [Ref 25]" by code_simp
  have ps2: "length [Ref 25] \<le> Suc 0" by simp
  have sym: "otype ?s (Ref 25) = Inr OT_SYMBOL" by code_simp
  have ps3: "\<forall>x\<in>set [Ref 25]. \<exists>t. otype ?s x = Inr t" using sym by simp
  have env: "0 < length (envs ?s)" by code_simp
  have f1: "deref ?s (Ref 33) = Some (OCons (Ref 23) (Ref 32))" by code_simp
  have f2: "deref ?s (Ref 32) = Some (OCons (Ref 31) NilP)" by code_simp
  have f3: "deref ?s (Ref 31) = Some (OCons (Ref 30) (Ref 27))" by code_simp
  have f4: "deref ?s (Ref 30) = Some (OSymbol ''lambda'')" by code_simp
  have l1: "env_lookup 0 ?s 0 ''lambda'' = Inr (Ref 10)" by code_simp
  have l2: "deref ?s (Ref 10) = Some (OPrimitive P_lambda)" by code_simp
  have len: "length (heap ?s) = 34" by code_simp
  have lenv: "length (envs ?s) = 1" by code_simp
  have E: "[(envs ?s ! 0)\<lparr>ht := AList.update ''f'' (Ref 34) (ht (envs ?s ! 0))\<rparr>]
      = (envs ?s)[0 := (envs ?s ! 0)\<lparr>ht := AList.update ''f'' (Ref (length (heap ?s))) (ht (envs ?s ! 0))\<rparr>]"
    using lenv len by (cases "envs ?s") simp_all
  show ?thesis
    using defun_is_define_lambda[OF args nam rest ps1 ps2 ps3 env f1 f2 f3 f4 l1 l2 refl E] sym len
    by (simp add: numeral_2_eq_2)
qed

section \<open>Objects are never freed, and only cells are written\<close>

lemma ext_refl [simp]: "ext s s"
  by (auto simp: ext_def split: obj.splits)

lemma ext_trans: "ext s s' \<Longrightarrow> ext s' s'' \<Longrightarrow> ext s s''"
  unfolding ext_def
  apply (intro conjI allI impI)
    apply simp
   apply simp
  subgoal for a
    apply (elim conjE)
    apply (drule spec[of _ a])
    apply (drule spec[of _ a])
    apply (auto split: obj.splits)
    done
  done

lemma ext_evD: "ext_ev ev \<Longrightarrow> ev env e s = Inr (v, s') \<Longrightarrow> ext s s'"
  by (auto simp: ext_ev_def)

lemma ext_new_object: "new_object ob s = (p, s') \<Longrightarrow> ext s s'"
  by (auto simp: new_object_def ext_def nth_append split: obj.splits)

lemma ext_cons: "cons a d s = (p, s') \<Longrightarrow> ext s s'"
  by (auto simp: cons_def dest: ext_new_object)

lemma ext_set_car: "set_car p v s = Inr s' \<Longrightarrow> ext s s'"
  by (auto simp: set_car_def ext_def deref_def nth_list_update split: ptr.splits option.splits obj.splits if_splits)

lemma ext_set_cdr: "set_cdr p v s = Inr s' \<Longrightarrow> ext s s'"
  by (auto simp: set_cdr_def ext_def deref_def nth_list_update split: ptr.splits option.splits obj.splits if_splits)

lemma ext_ht_insert: "ht_insert env nm v s = Inr s' \<Longrightarrow> ext s s'"
  by (auto simp: ht_insert_def ext_def split: if_splits obj.splits)

lemma ext_env_create: "env_create s = (e, s') \<Longrightarrow> ext s s'"
  by (auto simp: env_create_def ext_def split: obj.splits)

lemma ext_set_parent: "set_parent e p s = Inr s' \<Longrightarrow> ext s s'"
  by (auto simp: set_parent_def ext_def split: if_splits obj.splits)

lemma ext_printf [simp]: "ext s (printf txt s)"
  by (auto simp: printf_def ext_def split: obj.splits)

lemma bnd_InrE:
  assumes "bnd m f = Inr y"
  obtains x where "m = Inr x" and "f x = Inr y"
  using assms by (auto simp: bnd_eq_Inr)

lemma eval_args_loop_Suc:
  "e \<noteq> NilP \<Longrightarrow> eval_args_loop ev (Suc k) env e firstp lastp s =
      bnd (get_car s e) (\<lambda>a.
      bnd (ev env a s) (\<lambda>(v, s1).
      (case cons v NilP s1 of
         (c, s2) \<Rightarrow>
           bnd (if firstp = NilP then Inr (c, s2)
                else bnd (set_cdr lastp c s2) (\<lambda>s3. Inr (firstp, s3))) (\<lambda>(firstp', s3).
           bnd (get_cdr s3 e) (\<lambda>d.
           eval_args_loop ev k env d firstp' c s3)))))"
  by (subst eval_args_loop.simps) (simp cong: if_cong)

lemma eval_args_loop_0:
  "e \<noteq> NilP \<Longrightarrow> eval_args_loop ev 0 env e firstp lastp s = Inl OutOfFuel"
  by (subst eval_args_loop.simps) (simp cong: if_cong)

lemma eval_args_loop_Nil: "eval_args_loop ev k env NilP firstp lastp s = Inr (firstp, s)"
  by (subst eval_args_loop.simps) simp

lemma ext_eval_args_loop:
  "ext_ev ev \<Longrightarrow> eval_args_loop ev k env e firstp lastp s = Inr (v, s') \<Longrightarrow> ext s s'"
proof (induction k arbitrary: e firstp lastp s)
  case 0
  then show ?case by (cases "e = NilP") (auto simp: eval_args_loop_0 eval_args_loop_Nil)
next
  case (Suc k)
  show ?case
  proof (cases "e = NilP")
    case True
    with Suc.prems show ?thesis by (simp add: eval_args_loop_Nil)
  next
    case False
    from Suc.prems(2) show ?thesis
      unfolding eval_args_loop_Suc[OF False]
      by (auto elim!: bnd_InrE split: prod.splits if_splits
          dest!: ext_evD[OF Suc.prems(1)] ext_cons ext_set_cdr Suc.IH[OF Suc.prems(1)])
         (blast intro: ext_trans)+
  qed
qed


lemma ext_eval_args: "ext_ev ev \<Longrightarrow> eval_args ev k env e s = Inr (v, s') \<Longrightarrow> ext s s'"
  by (auto simp: eval_args_def dest: ext_eval_args_loop)

lemma progn_loop_Nil:
  "progn_loop ev k env NilP lastp s = (case lastp of None \<Rightarrow> Inl Undefined | Some v \<Rightarrow> Inr (v, s))"
  by (subst progn_loop.simps) simp

lemma progn_loop_0: "args \<noteq> NilP \<Longrightarrow> progn_loop ev 0 env args lastp s = Inl OutOfFuel"
  by (subst progn_loop.simps) (simp cong: if_cong)

lemma progn_loop_Suc:
  "args \<noteq> NilP \<Longrightarrow> progn_loop ev (Suc k) env args lastp s =
     bnd (get_car s args) (\<lambda>a.
     bnd (ev env a s) (\<lambda>(v, s1).
     bnd (get_cdr s1 args) (\<lambda>d.
     progn_loop ev k env d (Some v) s1)))"
  by (subst progn_loop.simps) (simp cong: if_cong)

lemma ext_progn_loop:
  "ext_ev ev \<Longrightarrow> progn_loop ev k env args lastp s = Inr (v, s') \<Longrightarrow> ext s s'"
proof (induction k arbitrary: args lastp s)
  case 0
  then show ?case
    by (cases "args = NilP") (auto simp: progn_loop_0 progn_loop_Nil split: option.splits)
next
  case (Suc k)
  show ?case
  proof (cases "args = NilP")
    case True
    with Suc.prems show ?thesis by (auto simp: progn_loop_Nil split: option.splits)
  next
    case False
    from Suc.prems(2) show ?thesis
      unfolding progn_loop_Suc[OF False]
      by (auto elim!: bnd_InrE split: prod.splits if_splits
          dest!: ext_evD[OF Suc.prems(1)] Suc.IH[OF Suc.prems(1)])
         (blast intro: ext_trans)+
  qed
qed

lemma ext_progn: "ext_ev ev \<Longrightarrow> progn ev k env args s = Inr (v, s') \<Longrightarrow> ext s s'"
  by (auto simp: progn_def dest: ext_progn_loop)

lemma bind_params_0:
  "bind_params 0 env_child params args s =
     bnd (otype s params) (\<lambda>t. if t = OT_CONS then Inl OutOfFuel else Inr s)"
  by (subst bind_params.simps) (simp cong: if_cong)

lemma bind_params_Suc:
  "bind_params (Suc k) env_child params args s =
     bnd (otype s params) (\<lambda>t.
       if t = OT_CONS then
         bnd (get_car s params) (\<lambda>p.
         bnd (get_name s p) (\<lambda>nm.
         bnd (get_car s args) (\<lambda>v.
         bnd (ht_insert env_child nm v s) (\<lambda>s1.
         bnd (get_cdr s1 params) (\<lambda>ps.
         bnd (get_cdr s1 args) (\<lambda>vs.
         bind_params k env_child ps vs s1))))))
       else Inr s)"
  by (subst bind_params.simps) (simp cong: if_cong)

lemma ext_bind_params: "bind_params k c params args s = Inr s' \<Longrightarrow> ext s s'"
proof (induction k arbitrary: params args s)
  case 0
  then show ?case by (auto simp: bind_params_0 elim!: bnd_InrE split: if_splits)
next
  case (Suc k)
  from Suc.prems show ?case
    unfolding bind_params_Suc
    by (auto elim!: bnd_InrE split: if_splits dest!: ext_ht_insert Suc.IH)
       (blast intro: ext_trans)+
qed

lemma heap_printf [simp]: "heap (printf txt s) = heap s" "envs (printf txt s) = envs s"
  by (simp_all add: printf_def)

lemma print_frame:
  "print k p s = Inr s' \<Longrightarrow> heap s' = heap s \<and> envs s' = envs s"
  "print_loop k p s = Inr s' \<Longrightarrow> heap s' = heap s \<and> envs s' = envs s"
proof (induction k p s and k p s arbitrary: s' and s' rule: print_print_loop.induct)
  case (1 p s)
  then show ?case by simp
next
  case (2 k p s)
  from "2.prems" show ?case
    by (auto elim!: bnd_InrE split: ObjectType.splits dest!: "2.IH")
next
  case (3 p s)
  then show ?case by simp
next
  case (4 k p s)
  from "4.prems" obtain a s1 d where a: "get_car s p = Inr a" and p1: "print k a s = Inr s1"
    and d: "get_cdr s1 p = Inr d"
    and r: "(if d = NilP then Inr s1 else print_loop k d (printf '' '' s1)) = Inr s'"
    by (auto elim!: bnd_InrE)
  from "4.IH"(1) a p1 have h1: "heap s1 = heap s \<and> envs s1 = envs s" by blast
  show ?case
  proof (cases "d = NilP")
    case True
    with r h1 show ?thesis by simp
  next
    case False
    with r have "print_loop k d (printf '' '' s1) = Inr s'" by simp
    with "4.IH"(2) a p1 d False have "heap s' = heap (printf '' '' s1) \<and> envs s' = envs (printf '' '' s1)"
      by blast
    with h1 show ?thesis by simp
  qed
qed


lemma ext_print: "print k p s = Inr s' \<Longrightarrow> ext s s'"
  by (drule print_frame(1)) (auto simp: ext_def split: obj.splits)

lemma primitive_and_0: "args \<noteq> NilP \<Longrightarrow> primitive_and ev 0 env args s = Inl OutOfFuel"
  by (subst primitive_and.simps) (simp cong: if_cong)

lemma primitive_and_Suc:
  "args \<noteq> NilP \<Longrightarrow> primitive_and ev (Suc k) env args s =
     bnd (get_car s args) (\<lambda>a.
     bnd (ev env a s) (\<lambda>(v, s1).
     if v = NilP then Inr (NilP, s1)
     else bnd (get_cdr s1 args) (\<lambda>d. primitive_and ev k env d s1)))"
  by (subst primitive_and.simps) (simp cong: if_cong)

lemma primitive_or_0: "args \<noteq> NilP \<Longrightarrow> primitive_or ev 0 env args s = Inl OutOfFuel"
  by (subst primitive_or.simps) (simp cong: if_cong)

lemma primitive_or_Suc:
  "args \<noteq> NilP \<Longrightarrow> primitive_or ev (Suc k) env args s =
     bnd (get_car s args) (\<lambda>a.
     bnd (ev env a s) (\<lambda>(v, s1).
     if v \<noteq> NilP then Inr (TrueP, s1)
     else bnd (get_cdr s1 args) (\<lambda>d. primitive_or ev k env d s1)))"
  by (subst primitive_or.simps) (simp cong: if_cong)

lemma ext_primitive_and:
  "ext_ev ev \<Longrightarrow> primitive_and ev k env args s = Inr (v, s') \<Longrightarrow> ext s s'"
proof (induction k arbitrary: args s)
  case 0
  then show ?case
    by (cases "args = NilP") (auto simp: primitive_and_0 primitive_and_Nil)
next
  case (Suc k)
  show ?case
  proof (cases "args = NilP")
    case True
    with Suc.prems show ?thesis by (auto simp: primitive_and_Nil)
  next
    case False
    from Suc.prems(2) show ?thesis
      unfolding primitive_and_Suc[OF False]
      by (auto elim!: bnd_InrE split: prod.splits if_splits
          dest!: ext_evD[OF Suc.prems(1)] Suc.IH[OF Suc.prems(1)])
         (blast intro: ext_trans)+
  qed
qed

lemma ext_primitive_or:
  "ext_ev ev \<Longrightarrow> primitive_or ev k env args s = Inr (v, s') \<Longrightarrow> ext s s'"
proof (induction k arbitrary: args s)
  case 0
  then show ?case
    by (cases "args = NilP") (auto simp: primitive_or_0 primitive_or_Nil)
next
  case (Suc k)
  show ?case
  proof (cases "args = NilP")
    case True
    with Suc.prems show ?thesis by (auto simp: primitive_or_Nil)
  next
    case False
    from Suc.prems(2) show ?thesis
      unfolding primitive_or_Suc[OF False]
      by (auto elim!: bnd_InrE split: prod.splits if_splits
          dest!: ext_evD[OF Suc.prems(1)] Suc.IH[OF Suc.prems(1)])
         (blast intro: ext_trans)+
  qed
qed

lemma ext_while_loop:
  "ext_ev ev \<Longrightarrow> while_loop ev k env args s = Inr (v, s') \<Longrightarrow> ext s s'"
proof (induction k arbitrary: s)
  case 0
  then show ?case
    by (auto simp: while_loop_0 elim!: bnd_InrE split: if_splits dest!: ext_evD[OF "0.prems"(1)])
next
  case (Suc k)
  from Suc.prems(2) show ?case
    unfolding while_loop_Suc
    by (auto elim!: bnd_InrE split: prod.splits if_splits
        dest!: ext_evD[OF Suc.prems(1)] ext_eval_args[OF Suc.prems(1)] Suc.IH[OF Suc.prems(1)])
       (blast intro: ext_trans)+
qed

lemma ext_create_function: "create_function k ps b s = Inr (v, s') \<Longrightarrow> ext s s'"
  by (auto simp: create_function_def elim!: bnd_InrE dest!: ext_new_object)

lemma ext_primitive_lambda: "primitive_lambda ev k env args s = Inr (v, s') \<Longrightarrow> ext s s'"
  by (auto simp: primitive_lambda_def elim!: bnd_InrE dest!: ext_create_function)

lemma ext_primitive_define:
  assumes ev: "ext_ev ev" and r: "primitive_define ev k env args s = Inr (v, s')"
  shows "ext s s'"
  using r unfolding primitive_define_def
  by (auto elim!: bnd_InrE split: if_splits prod.splits dest!: ext_evD[OF ev] ext_ht_insert)
     (blast intro: ext_trans)+

lemma ext_call_primitive:
  assumes ev: "ext_ev ev" and r: "call_primitive f ev k env args s = Inr (v, s')"
  shows "ext s s'"
proof (cases f)
  case P_and
  with r show ?thesis by (auto simp: call_primitive_def dest: ext_primitive_and[OF ev])
next
  case P_car
  with r show ?thesis
    by (auto simp: call_primitive_def primitive_car_def elim!: bnd_InrE
        split: if_splits prod.splits dest!: ext_eval_args[OF ev])
next
  case P_cdr
  with r show ?thesis
    by (auto simp: call_primitive_def primitive_cdr_def elim!: bnd_InrE
        split: if_splits prod.splits dest!: ext_eval_args[OF ev])
next
  case P_cons
  with r show ?thesis
    by (auto simp: call_primitive_def primitive_cons_def elim!: bnd_InrE
        split: if_splits prod.splits dest!: ext_eval_args[OF ev] ext_set_cdr)
       (blast intro: ext_trans)+
next
  case P_define
  with r show ?thesis by (auto simp: call_primitive_def dest: ext_primitive_define[OF ev])
next
  case P_defun
  with r show ?thesis
    by (auto simp: call_primitive_def primitive_defun_def elim!: bnd_InrE
        split: if_splits prod.splits
        dest!: ext_primitive_lambda ext_cons ext_set_cdr ext_primitive_define[OF ev])
       (blast intro: ext_trans)+
next
  case P_eq
  with r show ?thesis
    by (auto simp: call_primitive_def primitive_eq_def compare_ints_def elim!: bnd_InrE
        split: if_splits prod.splits dest!: ext_eval_args[OF ev])
next
  case P_gt
  with r show ?thesis
    by (auto simp: call_primitive_def primitive_gt_def compare_ints_def elim!: bnd_InrE
        split: if_splits prod.splits dest!: ext_eval_args[OF ev])
next
  case P_if
  with r show ?thesis
    by (auto simp: call_primitive_def primitive_if_def elim!: bnd_InrE
        split: if_splits prod.splits dest!: ext_evD[OF ev])
       (blast intro: ext_trans)+
next
  case P_lt
  with r show ?thesis
    by (auto simp: call_primitive_def primitive_lt_def compare_ints_def elim!: bnd_InrE
        split: if_splits prod.splits dest!: ext_eval_args[OF ev])
next
  case P_lambda
  with r show ?thesis by (auto simp: call_primitive_def dest: ext_primitive_lambda)
next
  case P_minus
  with r show ?thesis
    by (auto simp: call_primitive_def primitive_minus_def elim!: bnd_InrE
        split: if_splits prod.splits option.splits dest!: ext_eval_args[OF ev] ext_new_object)
       (blast intro: ext_trans)+
next
  case P_multi
  with r show ?thesis
    by (auto simp: call_primitive_def primitive_multi_def elim!: bnd_InrE
        split: if_splits prod.splits option.splits dest!: ext_eval_args[OF ev] ext_new_object)
       (blast intro: ext_trans)+
next
  case P_obj_eq
  with r show ?thesis
    by (auto simp: call_primitive_def primitive_obj_eq_def elim!: bnd_InrE
        split: if_splits prod.splits dest!: ext_eval_args[OF ev])
next
  case P_or
  with r show ?thesis by (auto simp: call_primitive_def dest: ext_primitive_or[OF ev])
next
  case P_plus
  with r show ?thesis
    by (auto simp: call_primitive_def primitive_plus_def elim!: bnd_InrE
        split: if_splits prod.splits dest!: ext_eval_args[OF ev] ext_new_object)
       (blast intro: ext_trans)+
next
  case P_println
  with r show ?thesis
    by (auto simp: call_primitive_def primitive_println_def elim!: bnd_InrE
        split: if_splits prod.splits dest!: ext_evD[OF ev] ext_print)
       (blast intro: ext_trans ext_printf)+
next
  case P_progn
  with r show ?thesis
    by (auto simp: call_primitive_def primitive_progn_def dest: ext_progn[OF ev])
next
  case P_setcar
  with r show ?thesis
    by (auto simp: call_primitive_def primitive_setcar_def elim!: bnd_InrE
        split: if_splits prod.splits dest!: ext_eval_args[OF ev] ext_set_car)
       (blast intro: ext_trans)+
next
  case P_quote
  with r show ?thesis
    by (auto simp: call_primitive_def primitive_quote_def elim!: bnd_InrE split: if_splits)
next
  case P_while
  with r show ?thesis
    by (auto simp: call_primitive_def primitive_while_def elim!: bnd_InrE
        split: if_splits dest!: ext_while_loop[OF ev])
qed

lemma ext_apply_fn:
  assumes ev: "ext_ev (eval n)" and r: "apply_fn n env f args s = Inr (v, s')"
  shows "ext s s'"
  using r
  by (auto elim!: bnd_InrE split: if_splits prod.splits
      dest!: ext_call_primitive[OF ev] ext_eval_args[OF ev] ext_env_create ext_set_parent
        ext_bind_params ext_progn[OF ev])
     (blast intro: ext_trans)+

lemma ext_eval_Suc:
  assumes ev: "ext_ev (eval n)"
  shows "ext_ev (eval (Suc n))"
  unfolding ext_ev_def
proof (intro allI impI)
  fix env e s v s'
  assume r: "eval (Suc n) env e s = Inr (v, s')"
  then show "ext s s'"
    by (auto elim!: bnd_InrE split: if_splits prod.splits ObjectType.splits
        simp del: apply_fn.simps dest!: ext_evD[OF ev] ext_apply_fn[OF ev])
       (blast intro: ext_trans)+
qed

lemma ext_eval: "ext_ev (eval n)"
proof (induction n)
  case 0
  show ?case by (simp add: ext_ev_def)
next
  case (Suc n)
  then show ?case by (rule ext_eval_Suc)
qed

section \<open>The primitives that read pairs\<close>

lemma eval_args_loop_fresh:
  "ext_ev ev \<Longrightarrow> eval_args_loop ev k env e firstp lastp s = Inr (p, s1) \<Longrightarrow>
   (firstp \<noteq> NilP \<longrightarrow> p = firstp) \<and>
   (firstp = NilP \<longrightarrow> p = NilP \<or> (\<exists>i. p = Ref i \<and> length (heap s) \<le> i))"
proof (induction k arbitrary: e firstp lastp s)
  case 0
  then show ?case by (cases "e = NilP") (auto simp: eval_args_loop_0 eval_args_loop_Nil)
next
  case (Suc k)
  show ?case
  proof (cases "e = NilP")
    case True
    with Suc.prems show ?thesis by (simp add: eval_args_loop_Nil)
  next
    case False
    from Suc.prems(2) obtain a v sa sb c firstp' sc d where
      a: "get_car s e = Inr a" and v: "ev env a s = Inr (v, sa)"
      and c: "cons v NilP sa = (c, sb)"
      and f: "(if firstp = NilP then Inr (c, sb)
               else bnd (set_cdr lastp c sb) (\<lambda>s3. Inr (firstp, s3))) = Inr (firstp', sc)"
      and d: "get_cdr sc e = Inr d"
      and r: "eval_args_loop ev k env d firstp' c sc = Inr (p, s1)"
      unfolding eval_args_loop_Suc[OF False]
      by (auto elim!: bnd_InrE split: prod.splits)
    have le: "length (heap s) \<le> length (heap sa)"
      using ext_evD[OF Suc.prems(1) v] by (simp add: ext_def)
    have cc: "c = Ref (length (heap sa))"
      using c by (simp add: cons_def new_object_def)
    show ?thesis
    proof (cases "firstp = NilP")
      case True
      with f have "firstp' = c" by simp
      with Suc.IH[OF Suc.prems(1) r] cc have "p = c" by simp
      with True cc le show ?thesis by simp
    next
      case False
      with f have "firstp' = firstp" by (auto elim!: bnd_InrE)
      with Suc.IH[OF Suc.prems(1) r] False show ?thesis by simp
    qed
  qed
qed

lemma eval_args_fresh:
  "ext_ev ev \<Longrightarrow> eval_args ev k env e s = Inr (p, s1) \<Longrightarrow>
   p = NilP \<or> (\<exists>i. p = Ref i \<and> length (heap s) \<le> i)"
  using eval_args_loop_fresh[of ev k env e NilP NilP s p s1] by (simp add: eval_args_def)

lemma same_objects_refl: "same_objects s s1 s1"
  by (simp add: same_objects_def)

lemma same_objects_new: "new_object ob s1 = (p, s') \<Longrightarrow> ext s s1 \<Longrightarrow> same_objects s s1 s'"
  by (auto simp: same_objects_def new_object_def ext_def nth_append)

lemma same_objects_set_cdr:
  "set_cdr (Ref i) x s1 = Inr s' \<Longrightarrow> length (heap s) \<le> i \<Longrightarrow> same_objects s s1 s'"
  by (auto simp: same_objects_def set_cdr_def split: option.splits obj.splits)

lemma same_objects_print: "print k p s1 = Inr s2 \<Longrightarrow> same_objects s s1 (printf txt s2)"
  by (drule print_frame(1)) (simp add: same_objects_def)

text \<open>
  C9, as the code has it. Each of \<^verbatim>\<open>car\<close>, \<^verbatim>\<open>cdr\<close>, \<^verbatim>\<open>cons\<close>, \<^verbatim>\<open>+\<close>, \<^verbatim>\<open>-\<close>,
  \<^verbatim>\<open>*\<close>, \<^verbatim>\<open>=\<close>, \<^verbatim>\<open><\<close>, \<^verbatim>\<open>>\<close>, \<^verbatim>\<open>eq\<close>, \<^verbatim>\<open>quote\<close> and \<^verbatim>\<open>println\<close> writes to no
  object that existed before the call: when the call returns, every such object is
  what the evaluation of the argument expressions left it (for \<^verbatim>\<open>quote\<close>: what it
  was). The evaluation of the arguments itself may write to a pair, through
  \<^verbatim>\<open>setcar\<close> or \<^verbatim>\<open>defun\<close>.
\<close>

theorem primitives_write_no_old_pair:
  assumes f: "f \<in> set reading_primitives"
    and r: "call_primitive f (eval n) k env args s = Inr (v, s')"
  shows "\<exists>s1. args_state f (eval n) k env args s = Inr s1 \<and> same_objects s s1 s'"
proof -
  note ev = ext_eval[of n]
  note ea = ext_eval_args[OF ev]
  from f consider "f = P_car" | "f = P_cdr" | "f = P_cons" | "f = P_plus" | "f = P_minus"
    | "f = P_multi" | "f = P_eq" | "f = P_lt" | "f = P_gt" | "f = P_obj_eq" | "f = P_quote"
    | "f = P_println"
    by (auto simp: reading_primitives_def)
  then show ?thesis
  proof cases
    case 1
    with r show ?thesis
      by (auto simp: call_primitive_def primitive_car_def args_state_def same_objects_refl
          elim!: bnd_InrE split: if_splits prod.splits)
  next
    case 2
    with r show ?thesis
      by (auto simp: call_primitive_def primitive_cdr_def args_state_def same_objects_refl
          elim!: bnd_InrE split: if_splits prod.splits)
  next
    case 3
    with r obtain a s1 d x where e: "eval_args (eval n) k env args s = Inr (a, s1)"
      and d: "get_cdr s1 a = Inr d" and x: "get_car s1 d = Inr x"
      and sc: "set_cdr a x s1 = Inr s'"
      by (auto simp: call_primitive_def primitive_cons_def elim!: bnd_InrE
          split: if_splits prod.splits)
    from eval_args_fresh[OF ev e] d x obtain i where i: "a = Ref i" "length (heap s) \<le> i"
      by auto
    from sc i have "same_objects s s1 s'" by (auto intro: same_objects_set_cdr)
    with e 3 show ?thesis by (simp add: args_state_def)
  next
    case 4
    with r show ?thesis
      by (auto simp: call_primitive_def primitive_plus_def args_state_def
          elim!: bnd_InrE split: if_splits prod.splits
          dest!: same_objects_new[OF _ ea])
  next
    case 5
    with r show ?thesis
      by (auto simp: call_primitive_def primitive_minus_def args_state_def
          elim!: bnd_InrE split: if_splits prod.splits option.splits
          dest!: same_objects_new[OF _ ea])
  next
    case 6
    with r show ?thesis
      by (auto simp: call_primitive_def primitive_multi_def args_state_def
          elim!: bnd_InrE split: if_splits prod.splits option.splits
          dest!: same_objects_new[OF _ ea])
  next
    case 7
    with r show ?thesis
      by (auto simp: call_primitive_def primitive_eq_def compare_ints_def args_state_def
          same_objects_refl elim!: bnd_InrE split: if_splits prod.splits)
  next
    case 8
    with r show ?thesis
      by (auto simp: call_primitive_def primitive_lt_def compare_ints_def args_state_def
          same_objects_refl elim!: bnd_InrE split: if_splits prod.splits)
  next
    case 9
    with r show ?thesis
      by (auto simp: call_primitive_def primitive_gt_def compare_ints_def args_state_def
          same_objects_refl elim!: bnd_InrE split: if_splits prod.splits)
  next
    case 10
    with r show ?thesis
      by (auto simp: call_primitive_def primitive_obj_eq_def args_state_def
          same_objects_refl elim!: bnd_InrE split: if_splits prod.splits)
  next
    case 11
    with r show ?thesis
      by (auto simp: call_primitive_def primitive_quote_def args_state_def
          same_objects_refl elim!: bnd_InrE split: if_splits prod.splits)
  next
    case 12
    with r show ?thesis
      by (auto simp: call_primitive_def primitive_println_def args_state_def
          same_objects_print elim!: bnd_InrE split: if_splits prod.splits)
  qed
qed

text \<open>
  The claim of C9 as it is stated fails: \<^verbatim>\<open>car\<close> evaluates its argument, and in
  \<^verbatim>\<open>(car (setcar p 5))\<close> that evaluation replaces the \<^verbatim>\<open>car\<close> of the pair bound to
  \<^verbatim>\<open>p\<close>, which existed before the call of \<^verbatim>\<open>car\<close>.
\<close>

theorem car_of_setcar_changes_pair:
  "deref (snd setcar_example) (Ref 31) = Some (OCons (Ref 30) NilP)
   \<and> deref (state_of (call_primitive P_car (eval 4) 4 0 (Ref 29) (snd setcar_example))) (Ref 31)
       = Some (OCons (Ref 27) NilP)
   \<and> deref (state_of (eval 5 0 (fst setcar_example) (snd setcar_example))) (Ref 31)
       = Some (OCons (Ref 27) NilP)"
  by code_simp

theorem primitives_write_no_old_pair_witness:
  "\<exists>s1. args_state P_car (eval 4) 4 0 (Ref 29) (snd setcar_example) = Inr s1
     \<and> same_objects (snd setcar_example) s1
         (state_of (call_primitive P_car (eval 4) 4 0 (Ref 29) (snd setcar_example)))"
proof -
  have f: "P_car \<in> set reading_primitives"
    by (simp add: reading_primitives_def)
  have r: "call_primitive P_car (eval 4) 4 0 (Ref 29) (snd setcar_example)
      = Inr (Ref 27, state_of (call_primitive P_car (eval 4) 4 0 (Ref 29) (snd setcar_example)))"
    by code_simp
  show ?thesis
    using primitives_write_no_old_pair[OF f r] .
qed

section \<open>Applying a closure\<close>

lemma deref_heap_cong: "heap s' = heap s \<Longrightarrow> deref s' p = deref s p"
  by (simp add: deref_def split: ptr.splits)

lemma otype_heap_cong: "heap s' = heap s \<Longrightarrow> otype s' p = otype s p"
  by (simp add: otype_def deref_heap_cong[of s' s] split: ptr.splits)

lemma get_name_heap_cong: "heap s' = heap s \<Longrightarrow> get_name s' = get_name s"
  by (rule ext) (simp add: get_name_def deref_heap_cong[of s' s])

lemma cells_heap_cong: "heap s' = heap s \<Longrightarrow> cells s' p xs = cells s p xs"
  by (induction xs arbitrary: p)
     (auto simp: otype_heap_cong[of s' s] deref_heap_cong[of s' s] split: option.splits obj.splits)

lemma ext_deref_keep:
  "ext s s' \<Longrightarrow> deref s p = Some (OFunction ps b) \<Longrightarrow> deref s' p = Some (OFunction ps b)"
  by (auto simp: ext_def deref_Some split: obj.splits)

lemma dynamic_scoping:
  "value_of (eval 8 0 (fst scoping_example) (snd scoping_example)) = Inr (Some (OInt 110))"
  by code_simp

subsection \<open>Cells that only a loop knows\<close>

lemma okp_static [simp]: "okp P s Null" "okp P s NilP" "okp P s TrueP"
  by (simp_all add: okp_def)

lemma okp_mono: "okp P s p \<Longrightarrow> length (heap s) \<le> length (heap s') \<Longrightarrow> okp P s' p"
  by (auto simp: okp_def split: ptr.splits)

lemma ok_obj_mono: "ok_obj P s ob \<Longrightarrow> length (heap s) \<le> length (heap s') \<Longrightarrow> ok_obj P s' ob"
  by (auto simp: ok_obj_def intro: okp_mono split: obj.splits)

lemma okp_keeps: "keeps P s s' \<Longrightarrow> okp P s p \<Longrightarrow> okp P s' p"
  by (auto simp: keeps_def intro: okp_mono)

lemma keeps_refl: "priv P s \<Longrightarrow> keeps P s s"
  by (simp add: keeps_def)

lemma keeps_trans: "keeps P s s1 \<Longrightarrow> keeps P s1 s2 \<Longrightarrow> keeps P s s2"
  by (auto simp: keeps_def)

lemma keeps_priv: "keeps P s s' \<Longrightarrow> priv P s'"
  by (simp add: keeps_def)

lemma priv_evD:
  "priv_ev P ev \<Longrightarrow> priv P s \<Longrightarrow> okp P s e \<Longrightarrow> ev env e s = Inr (v, s') \<Longrightarrow>
   keeps P s s' \<and> okp P s' v"
  unfolding priv_ev_def by blast

lemma okp_deref:
  "priv P s \<Longrightarrow> okp P s p \<Longrightarrow> deref s p = Some ob \<Longrightarrow> ok_obj P s ob"
  by (auto simp: priv_def okp_def deref_def split: ptr.splits if_splits)

lemma okp_get_car: "priv P s \<Longrightarrow> okp P s p \<Longrightarrow> get_car s p = Inr a \<Longrightarrow> okp P s a"
  by (cases p) (auto simp: get_car_def ok_obj_def dest!: okp_deref split: option.splits obj.splits)

lemma okp_get_cdr: "priv P s \<Longrightarrow> okp P s p \<Longrightarrow> get_cdr s p = Inr a \<Longrightarrow> okp P s a"
  by (cases p) (auto simp: get_cdr_def ok_obj_def dest!: okp_deref split: option.splits obj.splits)

lemma okp_get_params: "priv P s \<Longrightarrow> okp P s p \<Longrightarrow> get_params s p = Inr a \<Longrightarrow> okp P s a"
  by (auto simp: get_params_def ok_obj_def dest!: okp_deref split: option.splits obj.splits)

lemma okp_get_body: "priv P s \<Longrightarrow> okp P s p \<Longrightarrow> get_body s p = Inr a \<Longrightarrow> okp P s a"
  by (auto simp: get_body_def ok_obj_def dest!: okp_deref split: option.splits obj.splits)

lemma privI:
  "(\<And>a. a < length (heap s) \<Longrightarrow> a \<notin> P \<Longrightarrow> ok_obj P s (heap s ! a)) \<Longrightarrow>
   (\<And>fr b. fr \<in> set (envs s) \<Longrightarrow> b \<in> set (ht fr) \<Longrightarrow> okp P s (snd b)) \<Longrightarrow>
   (\<And>a. a \<in> P \<Longrightarrow> a < length (heap s)) \<Longrightarrow> priv P s"
  unfolding priv_def by blast

lemma priv_heapD: "priv P s \<Longrightarrow> a < length (heap s) \<Longrightarrow> a \<notin> P \<Longrightarrow> ok_obj P s (heap s ! a)"
  unfolding priv_def by blast

lemma priv_envsD: "priv P s \<Longrightarrow> fr \<in> set (envs s) \<Longrightarrow> b \<in> set (ht fr) \<Longrightarrow> okp P s (snd b)"
  unfolding priv_def by blast

lemma priv_domD: "priv P s \<Longrightarrow> a \<in> P \<Longrightarrow> a < length (heap s)"
  unfolding priv_def by blast

lemma okp_Ref: "okp P s (Ref a) \<longleftrightarrow> a < length (heap s) \<and> a \<notin> P"
  by (simp add: okp_def)

lemma keepsI:
  "priv P s' \<Longrightarrow> length (heap s) \<le> length (heap s') \<Longrightarrow>
   (\<And>a. a \<in> P \<Longrightarrow> heap s' ! a = heap s ! a) \<Longrightarrow> keeps P s s'"
  unfolding keeps_def by blast

lemma keeps_new_object:
  assumes p: "priv P s" and ob: "ok_obj P s ob" and n: "new_object ob s = (p, s')"
  shows "keeps P s s' \<and> okp P s' p"
proof -
  from n have s': "s' = s\<lparr>heap := heap s @ [ob]\<rparr>" and pp: "p = Ref (length (heap s))"
    by (auto simp: new_object_def)
  have le: "length (heap s) \<le> length (heap s')" by (simp add: s')
  have 1: "priv P s'"
  proof (rule privI)
    fix a assume a: "a < length (heap s')" "a \<notin> P"
    show "ok_obj P s' (heap s' ! a)"
    proof (cases "a < length (heap s)")
      case True
      then have "heap s' ! a = heap s ! a" by (simp add: s' nth_append)
      with priv_heapD[OF p True a(2)] le show ?thesis by (auto intro: ok_obj_mono)
    next
      case False
      with a have "heap s' ! a = ob" by (simp add: s' nth_append)
      with ob le show ?thesis by (auto intro: ok_obj_mono)
    qed
  next
    fix fr b assume "fr \<in> set (envs s')" "b \<in> set (ht fr)"
    then have "okp P s (snd b)" using priv_envsD[OF p, of fr b] by (simp add: s')
    from okp_mono[OF this le] show "okp P s' (snd b)" .
  next
    fix a assume "a \<in> P"
    from priv_domD[OF p this] show "a < length (heap s')" by (simp add: s')
  qed
  have 2: "heap s' ! a = heap s ! a" if "a \<in> P" for a
    using priv_domD[OF p that] by (simp add: s' nth_append)
  have 3: "okp P s' p"
    using priv_domD[OF p, of "length (heap s)"] by (auto simp: pp okp_Ref s')
  from keepsI[OF 1 le 2] 3 show ?thesis by blast
qed

lemma ok_obj_cons: "ok_obj P s (OCons a d) \<longleftrightarrow> okp P s a \<and> okp P s d"
  by (simp add: ok_obj_def)

lemma ok_obj_function: "ok_obj P s (OFunction a d) \<longleftrightarrow> okp P s a \<and> okp P s d"
  by (simp add: ok_obj_def)

lemma ok_obj_atom [simp]: "ok_obj P s (OInt i)" "ok_obj P s (OSymbol nm)" "ok_obj P s (OPrimitive f)"
  by (simp_all add: ok_obj_def)

lemma keeps_cons:
  "priv P s \<Longrightarrow> okp P s a \<Longrightarrow> okp P s d \<Longrightarrow> cons a d s = (p, s') \<Longrightarrow> keeps P s s' \<and> okp P s' p"
  unfolding cons_def by (rule keeps_new_object) (simp_all add: ok_obj_cons)

lemma keeps_heap_update:
  assumes p: "priv P s" and a: "a < length (heap s)" "a \<notin> P" and ob: "ok_obj P s ob"
  shows "keeps P s (s\<lparr>heap := (heap s)[a := ob]\<rparr>)"
proof -
  let ?s' = "s\<lparr>heap := (heap s)[a := ob]\<rparr>"
  have le: "length (heap s) \<le> length (heap ?s')" by simp
  have 1: "priv P ?s'"
  proof (rule privI)
    fix b assume b: "b < length (heap ?s')" "b \<notin> P"
    then have bl: "b < length (heap s)" by simp
    show "ok_obj P ?s' (heap ?s' ! b)"
    proof (cases "b = a")
      case True
      with a have "heap ?s' ! b = ob" by simp
      with ob le show ?thesis by (auto intro: ok_obj_mono)
    next
      case False
      then have "heap ?s' ! b = heap s ! b" by simp
      with priv_heapD[OF p bl b(2)] le show ?thesis by (auto intro: ok_obj_mono)
    qed
  next
    fix fr b assume "fr \<in> set (envs ?s')" "b \<in> set (ht fr)"
    then have "okp P s (snd b)" using priv_envsD[OF p, of fr b] by simp
    from okp_mono[OF this le] show "okp P ?s' (snd b)" .
  next
    fix b assume "b \<in> P"
    with priv_domD[OF p] show "b < length (heap ?s')" by auto
  qed
  have 2: "heap ?s' ! b = heap s ! b" if "b \<in> P" for b
    using that a by (auto simp: nth_list_update)
  from keepsI[OF 1 le 2] show ?thesis .
qed

lemma keeps_set_car:
  assumes p: "priv P s" and pp: "okp P s p" and v: "okp P s v" and sc: "set_car p v s = Inr s'"
  shows "keeps P s s'"
proof -
  from sc obtain a x d where a: "p = Ref a" and d: "deref s p = Some (OCons x d)"
    and s': "s' = s\<lparr>heap := (heap s)[a := OCons v d]\<rparr>"
    by (auto simp: set_car_def split: ptr.splits option.splits obj.splits)
  from okp_deref[OF p pp d] have "okp P s d" by (simp add: ok_obj_cons)
  with v have ob: "ok_obj P s (OCons v d)" by (simp add: ok_obj_cons)
  from pp a have "a < length (heap s)" "a \<notin> P" by (simp_all add: okp_Ref)
  from keeps_heap_update[OF p this ob] show ?thesis by (simp add: s')
qed

lemma keeps_set_cdr:
  assumes p: "priv P s" and pp: "okp P s p" and v: "okp P s v" and sc: "set_cdr p v s = Inr s'"
  shows "keeps P s s'"
proof -
  from sc obtain a x d where a: "p = Ref a" and d: "deref s p = Some (OCons x d)"
    and s': "s' = s\<lparr>heap := (heap s)[a := OCons x v]\<rparr>"
    by (auto simp: set_cdr_def split: ptr.splits option.splits obj.splits)
  from okp_deref[OF p pp d] have "okp P s x" by (simp add: ok_obj_cons)
  with v have ob: "ok_obj P s (OCons x v)" by (simp add: ok_obj_cons)
  from pp a have "a < length (heap s)" "a \<notin> P" by (simp_all add: okp_Ref)
  from keeps_heap_update[OF p this ob] show ?thesis by (simp add: s')
qed

lemma okp_envs_cong: "heap s' = heap s \<Longrightarrow> okp P s' p = okp P s p"
  by (cases p) (simp_all add: okp_def)

lemma ok_obj_envs_cong: "heap s' = heap s \<Longrightarrow> ok_obj P s' ob = ok_obj P s ob"
  by (cases ob) (simp_all add: ok_obj_def okp_envs_cong[of s' s])

lemma keeps_envs:
  assumes p: "priv P s" and h: "heap s' = heap s"
    and e: "\<And>fr b. fr \<in> set (envs s') \<Longrightarrow> b \<in> set (ht fr) \<Longrightarrow> okp P s (snd b)"
  shows "keeps P s s'"
proof -
  have 1: "priv P s'"
  proof (rule privI)
    fix a assume "a < length (heap s')" "a \<notin> P"
    with priv_heapD[OF p, of a] show "ok_obj P s' (heap s' ! a)"
      by (simp add: h ok_obj_envs_cong[OF h])
  next
    fix fr b assume "fr \<in> set (envs s')" "b \<in> set (ht fr)"
    from e[OF this] show "okp P s' (snd b)" by (simp add: okp_envs_cong[OF h])
  next
    fix a assume "a \<in> P"
    with priv_domD[OF p] show "a < length (heap s')" by (simp add: h)
  qed
  show ?thesis by (rule keepsI[OF 1]) (simp_all add: h)
qed

lemma set_update_cases:
  "b \<in> set (AList.update k v al) \<Longrightarrow> b = (k, v) \<or> b \<in> set al"
  by (induction al) (auto split: if_splits)

lemma keeps_ht_insert:
  assumes p: "priv P s" and v: "okp P s v" and hi: "ht_insert env nm v s = Inr s'"
  shows "keeps P s s'"
proof -
  from hi have e: "env < length (envs s)"
    and s': "s' = s\<lparr>envs := (envs s)[env := (envs s ! env)\<lparr>ht := AList.update nm v (ht (envs s ! env))\<rparr>]\<rparr>"
    by (auto simp: ht_insert_def split: if_splits)
  show ?thesis
  proof (rule keeps_envs[OF p])
    show "heap s' = heap s" by (simp add: s')
  next
    fix fr b assume fr: "fr \<in> set (envs s')" and b: "b \<in> set (ht fr)"
    from fr have "fr = (envs s ! env)\<lparr>ht := AList.update nm v (ht (envs s ! env))\<rparr> \<or> fr \<in> set (envs s)"
      unfolding s' by (auto dest: set_update_subset_insert[THEN subsetD])
    then show "okp P s (snd b)"
    proof
      assume "fr = (envs s ! env)\<lparr>ht := AList.update nm v (ht (envs s ! env))\<rparr>"
      with b have "b = (nm, v) \<or> b \<in> set (ht (envs s ! env))"
        by (auto dest: set_update_cases)
      with v priv_envsD[OF p nth_mem[OF e], of b] show ?thesis by auto
    next
      assume "fr \<in> set (envs s)"
      from priv_envsD[OF p this b] show ?thesis .
    qed
  qed
qed

lemma keeps_env_create:
  assumes p: "priv P s" and ec: "env_create s = (e, s')"
  shows "keeps P s s'"
proof (rule keeps_envs[OF p])
  from ec show "heap s' = heap s" by (auto simp: env_create_def)
next
  fix fr b assume fr: "fr \<in> set (envs s')" and b: "b \<in> set (ht fr)"
  from ec fr b have "fr \<in> set (envs s)" by (auto simp: env_create_def)
  from priv_envsD[OF p this b] show "okp P s (snd b)" .
qed

lemma keeps_set_parent:
  assumes p: "priv P s" and sp: "set_parent e q s = Inr s'"
  shows "keeps P s s'"
proof -
  from sp have e: "e < length (envs s)"
    and s': "s' = s\<lparr>envs := (envs s)[e := (envs s ! e)\<lparr>parent := Some q\<rparr>]\<rparr>"
    by (auto simp: set_parent_def split: if_splits)
  show ?thesis
  proof (rule keeps_envs[OF p])
    show "heap s' = heap s" by (simp add: s')
  next
    fix fr b assume fr: "fr \<in> set (envs s')" and b: "b \<in> set (ht fr)"
    from fr have "fr = (envs s ! e)\<lparr>parent := Some q\<rparr> \<or> fr \<in> set (envs s)"
      unfolding s' by (auto dest: set_update_subset_insert[THEN subsetD])
    then show "okp P s (snd b)"
    proof
      assume "fr = (envs s ! e)\<lparr>parent := Some q\<rparr>"
      with b have "b \<in> set (ht (envs s ! e))" by simp
      from priv_envsD[OF p nth_mem[OF e] this] show ?thesis .
    next
      assume "fr \<in> set (envs s)"
      from priv_envsD[OF p this b] show ?thesis .
    qed
  qed
qed

lemma okp_env_lookup: "priv P s \<Longrightarrow> env_lookup k s env nm = Inr v \<Longrightarrow> okp P s v"
proof (induction k arbitrary: env)
  case 0
  from "0.prems"(2) have e: "env < length (envs s)" and m: "map_of (ht (envs s ! env)) nm = Some v"
    by (auto simp: env_lookup.simps[of 0] split: if_splits option.splits)
  from priv_envsD[OF "0.prems"(1) nth_mem[OF e] map_of_SomeD[OF m]] show ?case by simp
next
  case (Suc k)
  from Suc.prems(2) have e: "env < length (envs s)"
    by (auto simp: env_lookup.simps[of "Suc k"] split: if_splits)
  show ?case
  proof (cases "map_of (ht (envs s ! env)) nm")
    case (Some w)
    with Suc.prems(2) e have "w = v" by (simp add: env_lookup.simps[of "Suc k"])
    with priv_envsD[OF Suc.prems(1) nth_mem[OF e] map_of_SomeD[OF Some]] show ?thesis by simp
  next
    case None
    with Suc.prems(2) e obtain q where "env_lookup k s q nm = Inr v"
      by (auto simp: env_lookup.simps[of "Suc k"] split: option.splits)
    from Suc.IH[OF Suc.prems(1) this] show ?thesis .
  qed
qed

lemma keeps_same:
  assumes p: "priv P s" and h: "heap s' = heap s" and e: "envs s' = envs s"
  shows "keeps P s s'"
proof (rule keeps_envs[OF p h])
  fix fr b assume "fr \<in> set (envs s')" "b \<in> set (ht fr)"
  with priv_envsD[OF p, of fr b] e show "okp P s (snd b)" by simp
qed

lemma goodD: "good P s r \<Longrightarrow> r = Inr (v, s') \<Longrightarrow> keeps P s s' \<and> okp P s' v"
  by (simp add: good_def)

lemma good_Inl [simp]: "good P s (Inl e)"
  by (simp add: good_def)

lemma good_err [simp]: "good P s (err m)"
  by (simp add: good_def err_def)

lemma good_Inr: "priv P s \<Longrightarrow> okp P s v \<Longrightarrow> good P s (Inr (v, s))"
  by (simp add: good_def keeps_refl)

lemma good_step: "keeps P s s1 \<Longrightarrow> good P s1 r \<Longrightarrow> good P s r"
  unfolding good_def by (blast intro: keeps_trans)

lemma good_bnd_run:
  "good P s m \<Longrightarrow>
   (\<And>v s1. m = Inr (v, s1) \<Longrightarrow> keeps P s s1 \<Longrightarrow> okp P s1 v \<Longrightarrow> good P s1 (f (v, s1))) \<Longrightarrow>
   good P s (bnd m f)"
  unfolding good_def by (cases m) (auto intro: keeps_trans)

lemma good_bnd_read: "(\<And>x. m = Inr x \<Longrightarrow> good P s (f x)) \<Longrightarrow> good P s (bnd m f)"
  by (cases m) simp_all

lemma good_if: "(c \<Longrightarrow> good P s a) \<Longrightarrow> (\<not> c \<Longrightarrow> good P s b) \<Longrightarrow> good P s (if c then a else b)"
  by simp

lemma good_ev: "priv_ev P ev \<Longrightarrow> priv P s \<Longrightarrow> okp P s e \<Longrightarrow> good P s (ev env e s)"
  unfolding good_def by (blast dest: priv_evD)

lemma good_eval_args_loop:
  assumes ev: "priv_ev P ev"
  shows "priv P s \<Longrightarrow> okp P s e \<Longrightarrow> okp P s firstp \<Longrightarrow> okp P s lastp \<Longrightarrow>
     eval_args_loop ev k env e firstp lastp s = Inr (p, s') \<Longrightarrow> keeps P s s' \<and> okp P s' p"
proof (induction k arbitrary: e firstp lastp s)
  case 0
  then show ?case
    by (cases "e = NilP") (auto simp: eval_args_loop_0 eval_args_loop_Nil keeps_refl)
next
  case (Suc k)
  show ?case
  proof (cases "e = NilP")
    case True
    with Suc.prems show ?thesis by (auto simp: eval_args_loop_Nil keeps_refl)
  next
    case False
    from Suc.prems(5) obtain a v sa c sb firstp' sc d where
      a: "get_car s e = Inr a" and v: "ev env a s = Inr (v, sa)"
      and c: "cons v NilP sa = (c, sb)"
      and f: "(if firstp = NilP then Inr (c, sb)
               else bnd (set_cdr lastp c sb) (\<lambda>s3. Inr (firstp, s3))) = Inr (firstp', sc)"
      and d: "get_cdr sc e = Inr d"
      and r: "eval_args_loop ev k env d firstp' c sc = Inr (p, s')"
      unfolding eval_args_loop_Suc[OF False]
      by (auto elim!: bnd_InrE split: prod.splits)
    from priv_evD[OF ev Suc.prems(1) okp_get_car[OF Suc.prems(1,2) a] v]
    have k1: "keeps P s sa" and ov: "okp P sa v" by auto
    from keeps_cons[OF keeps_priv[OF k1] ov _ c]
    have k2: "keeps P sa sb" and oc: "okp P sb c" by auto
    note k12 = keeps_trans[OF k1 k2]
    have k3: "keeps P sb sc \<and> okp P sc firstp'"
    proof (cases "firstp = NilP")
      case True
      with f oc keeps_priv[OF k2] show ?thesis by (auto simp: keeps_refl)
    next
      case False
      with f have sc: "set_cdr lastp c sb = Inr sc" and ff: "firstp' = firstp"
        by (auto elim!: bnd_InrE)
      from keeps_set_cdr[OF keeps_priv[OF k2] okp_keeps[OF k12 Suc.prems(4)] oc sc]
      have "keeps P sb sc" .
      with okp_keeps[OF k12 Suc.prems(3)] ff show ?thesis by (auto intro: okp_keeps)
    qed
    then have k3': "keeps P sb sc" and of': "okp P sc firstp'" by auto
    note k13 = keeps_trans[OF k12 k3']
    from okp_get_cdr[OF keeps_priv[OF k13] okp_keeps[OF k13 Suc.prems(2)] d]
    have od: "okp P sc d" .
    from Suc.IH[OF keeps_priv[OF k13] od of' okp_keeps[OF k3' oc] r]
    have "keeps P sc s'" "okp P s' p" by auto
    with k13 show ?thesis by (auto intro: keeps_trans)
  qed
qed

lemma good_eval_args:
  "priv_ev P ev \<Longrightarrow> priv P s \<Longrightarrow> okp P s e \<Longrightarrow> good P s (eval_args ev k env e s)"
  unfolding good_def eval_args_def
  by (auto dest: good_eval_args_loop[where firstp = NilP and lastp = NilP])

lemma good_progn_loop:
  assumes ev: "priv_ev P ev"
  shows "priv P s \<Longrightarrow> okp P s args \<Longrightarrow> (\<forall>v. lastp = Some v \<longrightarrow> okp P s v) \<Longrightarrow>
     progn_loop ev k env args lastp s = Inr (p, s') \<Longrightarrow> keeps P s s' \<and> okp P s' p"
proof (induction k arbitrary: args lastp s)
  case 0
  then show ?case
    by (cases "args = NilP")
       (auto simp: progn_loop_0 progn_loop_Nil keeps_refl split: option.splits)
next
  case (Suc k)
  show ?case
  proof (cases "args = NilP")
    case True
    with Suc.prems show ?thesis
      by (auto simp: progn_loop_Nil keeps_refl split: option.splits)
  next
    case False
    from Suc.prems(4) obtain a v1 s1 d where a: "get_car s args = Inr a"
      and e: "ev env a s = Inr (v1, s1)" and d: "get_cdr s1 args = Inr d"
      and r: "progn_loop ev k env d (Some v1) s1 = Inr (p, s')"
      unfolding progn_loop_Suc[OF False] by (auto elim!: bnd_InrE split: prod.splits)
    from priv_evD[OF ev Suc.prems(1) okp_get_car[OF Suc.prems(1,2) a] e]
    have k1: "keeps P s s1" and ov: "okp P s1 v1" by auto
    from okp_get_cdr[OF keeps_priv[OF k1] okp_keeps[OF k1 Suc.prems(2)] d]
    have od: "okp P s1 d" .
    from Suc.IH[OF keeps_priv[OF k1] od _ r] ov
    have "keeps P s1 s'" "okp P s' p" by auto
    with k1 show ?thesis by (auto intro: keeps_trans)
  qed
qed

lemma good_progn:
  "priv_ev P ev \<Longrightarrow> priv P s \<Longrightarrow> okp P s e \<Longrightarrow> good P s (progn ev k env e s)"
  unfolding good_def progn_def
  by (auto dest: good_progn_loop[where lastp = None])

lemma keeps_bind_params:
  "priv P s \<Longrightarrow> okp P s params \<Longrightarrow> okp P s args \<Longrightarrow>
   bind_params k c params args s = Inr s' \<Longrightarrow> keeps P s s'"
proof (induction k arbitrary: params args s)
  case 0
  then show ?case
    by (auto simp: bind_params_0 keeps_refl elim!: bnd_InrE split: if_splits)
next
  case (Suc k)
  show ?case
  proof (cases "otype s params = Inr OT_CONS")
    case False
    with Suc.prems(4) have "s' = s"
      unfolding bind_params_Suc by (auto elim!: bnd_InrE split: if_splits)
    with Suc.prems(1) show ?thesis by (simp add: keeps_refl)
  next
    case True
    with Suc.prems(4) obtain p nm v s1 ps vs where p: "get_car s params = Inr p"
      and v: "get_car s args = Inr v" and hi: "ht_insert c nm v s = Inr s1"
      and ps: "get_cdr s1 params = Inr ps" and vs: "get_cdr s1 args = Inr vs"
      and r: "bind_params k c ps vs s1 = Inr s'"
      unfolding bind_params_Suc by (auto elim!: bnd_InrE)
    from keeps_ht_insert[OF Suc.prems(1) okp_get_car[OF Suc.prems(1,3) v] hi]
    have k1: "keeps P s s1" .
    note p1 = keeps_priv[OF k1]
    from Suc.IH[OF p1 okp_get_cdr[OF p1 okp_keeps[OF k1 Suc.prems(2)] ps]
        okp_get_cdr[OF p1 okp_keeps[OF k1 Suc.prems(3)] vs] r]
    have "keeps P s1 s'" .
    with k1 show ?thesis by (rule keeps_trans)
  qed
qed

lemma good_primitive_and:
  assumes ev: "priv_ev P ev"
  shows "priv P s \<Longrightarrow> okp P s args \<Longrightarrow> good P s (primitive_and ev k env args s)"
proof (induction k arbitrary: args s)
  case 0
  then show ?case
    by (cases "args = NilP") (auto simp: primitive_and_0 primitive_and_Nil intro: good_Inr)
next
  case (Suc k)
  show ?case
  proof (cases "args = NilP")
    case True
    with Suc.prems show ?thesis by (auto simp: primitive_and_Nil intro: good_Inr)
  next
    case False
    show ?thesis
      unfolding primitive_and_Suc[OF False]
      apply (rule good_bnd_read)
      apply (rule good_bnd_run)
       apply (rule good_ev[OF ev Suc.prems(1)])
       apply (erule okp_get_car[OF Suc.prems(1,2)])
      apply (simp only: prod.case)
      apply (rule good_if)
       apply (rule good_Inr)
        apply (erule keeps_priv)
       apply simp
      apply (rule good_bnd_read)
      apply (rule Suc.IH)
       apply (erule keeps_priv)
      apply (erule okp_get_cdr[rotated 2])
       apply (erule keeps_priv)
      apply (erule okp_keeps)
      apply (rule Suc.prems(2))
      done
  qed
qed

lemma good_primitive_or:
  assumes ev: "priv_ev P ev"
  shows "priv P s \<Longrightarrow> okp P s args \<Longrightarrow> good P s (primitive_or ev k env args s)"
proof (induction k arbitrary: args s)
  case 0
  then show ?case
    by (cases "args = NilP") (auto simp: primitive_or_0 primitive_or_Nil intro: good_Inr)
next
  case (Suc k)
  show ?case
  proof (cases "args = NilP")
    case True
    with Suc.prems show ?thesis by (auto simp: primitive_or_Nil intro: good_Inr)
  next
    case False
    show ?thesis
      unfolding primitive_or_Suc[OF False]
      apply (rule good_bnd_read)
      apply (rule good_bnd_run)
       apply (rule good_ev[OF ev Suc.prems(1)])
       apply (erule okp_get_car[OF Suc.prems(1,2)])
      apply (simp only: prod.case)
      apply (rule good_if)
       apply (rule good_Inr)
        apply (erule keeps_priv)
       apply simp
      apply (rule good_bnd_read)
      apply (rule Suc.IH)
       apply (erule keeps_priv)
      apply (erule okp_get_cdr[rotated 2])
       apply (erule keeps_priv)
      apply (erule okp_keeps)
      apply (rule Suc.prems(2))
      done
  qed
qed

lemma good_Inr_step: "keeps P s s' \<Longrightarrow> okp P s' v \<Longrightarrow> good P s (Inr (v, s'))"
  by (simp add: good_def)

lemma good_bnd_run':
  "good P s m \<Longrightarrow>
   (\<And>v s1. m = Inr (v, s1) \<Longrightarrow> keeps P s s1 \<Longrightarrow> okp P s1 v \<Longrightarrow> good P s1 (f v s1)) \<Longrightarrow>
   good P s (bnd m (\<lambda>(v, s1). f v s1))"
  by (rule good_bnd_run) auto

lemma okp_if [simp]: "okp P s (if c then TrueP else NilP)"
  by simp

lemma good_new_int: "priv P s \<Longrightarrow> good P s (Inr (new_object (OInt v) s))"
  unfolding good_def by (auto dest!: keeps_new_object[rotated 2])

lemma keeps_print_printf:
  "priv P s \<Longrightarrow> print k p s = Inr s' \<Longrightarrow> keeps P s (printf txt s')"
  by (drule print_frame(1)) (auto intro: keeps_same)

lemmas good_intros = good_bnd_run' good_bnd_read good_if good_err good_Inl good_Inr good_Inr_step
  good_new_int

lemmas okp_reads = keeps_priv okp_get_car okp_get_cdr okp_keeps keeps_set_car keeps_set_cdr
  keeps_ht_insert keeps_print_printf

lemma good_primitive_car:
  assumes ev: "priv_ev P ev" and p: "priv P s" and a: "okp P s args"
  shows "good P s (primitive_car ev k env args s)"
  unfolding primitive_car_def
  by (intro good_intros good_eval_args[OF ev] p a) (blast intro: okp_reads)+

lemma good_primitive_cdr:
  assumes ev: "priv_ev P ev" and p: "priv P s" and a: "okp P s args"
  shows "good P s (primitive_cdr ev k env args s)"
  unfolding primitive_cdr_def
  by (intro good_intros good_eval_args[OF ev] p a) (blast intro: okp_reads)+

lemma good_compare_ints:
  assumes ev: "priv_ev P ev" and p: "priv P s" and a: "okp P s args"
  shows "good P s (compare_ints who cmp ev k env args s)"
  unfolding compare_ints_def
  by (intro good_intros good_eval_args[OF ev] p a okp_if) (blast intro: okp_reads)+

lemma good_primitive_obj_eq:
  assumes ev: "priv_ev P ev" and p: "priv P s" and a: "okp P s args"
  shows "good P s (primitive_obj_eq ev k env args s)"
  unfolding primitive_obj_eq_def
  by (intro good_intros good_eval_args[OF ev] p a okp_if) (blast intro: okp_reads)+

lemma good_primitive_cons:
  assumes ev: "priv_ev P ev" and p: "priv P s" and a: "okp P s args"
  shows "good P s (primitive_cons ev k env args s)"
  unfolding primitive_cons_def
  by (intro good_intros good_eval_args[OF ev] p a) (blast intro: okp_reads)+

lemma good_primitive_define:
  assumes ev: "priv_ev P ev" and p: "priv P s" and a: "okp P s args"
  shows "good P s (primitive_define ev k env args s)"
  unfolding primitive_define_def
  by (intro good_intros good_ev[OF ev] p)
     (assumption | rule a p okp_static | erule keeps_priv | erule okp_get_car[rotated 2]
       | erule okp_get_cdr[rotated 2] | erule keeps_ht_insert[rotated 2]
       | (rule okp_keeps, erule keeps_ht_insert[rotated 2]) | erule okp_keeps)+

lemma good_primitive_if:
  assumes ev: "priv_ev P ev" and p: "priv P s" and a: "okp P s args"
  shows "good P s (primitive_if ev k env args s)"
  unfolding primitive_if_def
  by (intro good_intros good_ev[OF ev] p)
     (assumption | rule a p okp_static | erule keeps_priv | erule okp_get_car[rotated 2]
       | erule okp_get_cdr[rotated 2] | erule okp_keeps)+

lemma good_create_function:
  assumes p: "priv P s" and a: "okp P s params" "okp P s body"
  shows "good P s (create_function k params body s)"
  unfolding create_function_def good_def
  using keeps_new_object[OF p, of "OFunction params body"] a
  by (auto elim!: bnd_InrE simp: ok_obj_function)

lemma good_primitive_lambda:
  assumes p: "priv P s" and a: "okp P s args"
  shows "good P s (primitive_lambda ev k env args s)"
  unfolding primitive_lambda_def
  by (intro good_intros good_create_function p) (blast intro: okp_reads p a)+

lemma good_primitive_minus:
  assumes ev: "priv_ev P ev" and p: "priv P s" and a: "okp P s args"
  shows "good P s (primitive_minus ev k env args s)"
  unfolding primitive_minus_def
  by (intro good_intros good_eval_args[OF ev] p a)
     (auto split: option.splits intro!: good_new_int intro: okp_reads)

lemma good_primitive_multi:
  assumes ev: "priv_ev P ev" and p: "priv P s" and a: "okp P s args"
  shows "good P s (primitive_multi ev k env args s)"
  unfolding primitive_multi_def
  by (intro good_intros good_eval_args[OF ev] p a)
     (auto split: option.splits intro!: good_new_int intro: okp_reads)

lemma good_primitive_plus:
  assumes ev: "priv_ev P ev" and p: "priv P s" and a: "okp P s args"
  shows "good P s (primitive_plus ev k env args s)"
  unfolding primitive_plus_def
  by (intro good_intros good_eval_args[OF ev] p a) (blast intro: okp_reads)+

lemma good_primitive_println:
  assumes ev: "priv_ev P ev" and p: "priv P s" and a: "okp P s args"
  shows "good P s (primitive_println ev k env args s)"
  unfolding primitive_println_def
  by (intro good_intros good_ev[OF ev] p okp_static) (blast intro: okp_reads p a)+

lemma good_primitive_setcar:
  assumes ev: "priv_ev P ev" and p: "priv P s" and a: "okp P s args"
  shows "good P s (primitive_setcar ev k env args s)"
  unfolding primitive_setcar_def
  by (intro good_intros good_eval_args[OF ev] p a)
     (assumption | rule a p okp_static | erule keeps_priv | erule okp_get_car[rotated 2]
       | erule okp_get_cdr[rotated 2] | erule keeps_set_car[rotated 3]
       | (rule keeps_priv, erule keeps_set_car[rotated 3])
       | (rule okp_keeps, erule keeps_set_car[rotated 3]) | erule okp_keeps)+

lemma good_primitive_quote:
  assumes p: "priv P s" and a: "okp P s args"
  shows "good P s (primitive_quote ev k env args s)"
  unfolding primitive_quote_def
  by (intro good_intros p) (blast intro: okp_reads p a)+

lemma good_while_loop:
  assumes ev: "priv_ev P ev"
  shows "priv P s \<Longrightarrow> okp P s args \<Longrightarrow> good P s (while_loop ev k env args s)"
proof (induction k arbitrary: s)
  case 0
  show ?case
    unfolding while_loop_0
    by (intro good_intros good_ev[OF ev] "0.prems")
       (assumption | rule "0.prems" okp_static | erule keeps_priv | erule okp_get_car[rotated 2]
         | erule okp_get_cdr[rotated 2] | erule okp_keeps)+
next
  case (Suc k)
  show ?case
    unfolding while_loop_Suc
    by (intro good_intros good_ev[OF ev] good_eval_args[OF ev] Suc.IH Suc.prems)
       (assumption | rule Suc.prems okp_static | erule keeps_priv | erule okp_get_car[rotated 2]
         | erule okp_get_cdr[rotated 2] | erule okp_keeps | (rule okp_keeps, assumption))+
qed

lemma good_primitive_while:
  assumes ev: "priv_ev P ev" and p: "priv P s" and a: "okp P s args"
  shows "good P s (primitive_while ev k env args s)"
  unfolding primitive_while_def
  by (intro good_intros good_while_loop[OF ev] p a)

lemma good_primitive_defun:
  assumes ev: "priv_ev P ev" and p: "priv P s" and a: "okp P s args"
  shows "good P s (primitive_defun ev k env args s)"
proof -
  have "keeps P s s' \<and> okp P s' v" if r: "primitive_defun ev k env args s = Inr (v, s')" for v s'
  proof -
    from r obtain d fn s1 c s2 s3 where d: "get_cdr s args = Inr d"
      and l: "primitive_lambda ev k env d s = Inr (fn, s1)"
      and c: "cons fn NilP s1 = (c, s2)"
      and sc: "set_cdr args c s2 = Inr s3"
      and df: "primitive_define ev k env args s3 = Inr (v, s')"
      unfolding primitive_defun_def by (auto elim!: bnd_InrE split: prod.splits)
    from goodD[OF good_primitive_lambda[OF p okp_get_cdr[OF p a d]] l]
    have k1: "keeps P s s1" and ofn: "okp P s1 fn" by auto
    from keeps_cons[OF keeps_priv[OF k1] ofn _ c]
    have k2: "keeps P s1 s2" and oc: "okp P s2 c" by auto
    note k12 = keeps_trans[OF k1 k2]
    from keeps_set_cdr[OF keeps_priv[OF k2] okp_keeps[OF k12 a] oc sc]
    have k3: "keeps P s2 s3" .
    note k13 = keeps_trans[OF k12 k3]
    from goodD[OF good_primitive_define[OF ev keeps_priv[OF k3] okp_keeps[OF k13 a]] df]
    have "keeps P s3 s'" "okp P s' v" by auto
    with k13 show ?thesis by (auto intro: keeps_trans)
  qed
  then show ?thesis unfolding good_def by blast
qed

lemma good_call_primitive:
  assumes ev: "priv_ev P ev" and p: "priv P s" and a: "okp P s args"
  shows "good P s (call_primitive f ev k env args s)"
  by (cases f)
     (simp_all add: call_primitive_def primitive_eq_def primitive_gt_def primitive_lt_def
        primitive_progn_def
        good_primitive_and[OF ev p a] good_primitive_or[OF ev p a] good_primitive_car[OF ev p a]
        good_primitive_cdr[OF ev p a] good_primitive_cons[OF ev p a]
        good_primitive_define[OF ev p a] good_primitive_defun[OF ev p a]
        good_compare_ints[OF ev p a] good_primitive_if[OF ev p a] good_primitive_lambda[OF p a]
        good_primitive_minus[OF ev p a] good_primitive_multi[OF ev p a]
        good_primitive_obj_eq[OF ev p a] good_primitive_plus[OF ev p a]
        good_primitive_println[OF ev p a] good_progn[OF ev p a] good_primitive_setcar[OF ev p a]
        good_primitive_quote[OF p a] good_primitive_while[OF ev p a])

lemma good_apply_fn:
  assumes ev: "priv_ev P (eval n)" and p: "priv P s" and f: "okp P s f" and a: "okp P s args"
  shows "good P s (apply_fn n env f args s)"
proof -
  have "keeps P s s' \<and> okp P s' v" if r: "apply_fn n env f args s = Inr (v, s')" for v s'
  proof -
    from r obtain t where t: "otype s f = Inr t"
      by (auto elim!: bnd_InrE)
    show ?thesis
    proof (cases "t = OT_PRIMITIVE")
      case True
      with r t obtain q where "call_primitive q (eval n) n env args s = Inr (v, s')"
        by (auto elim!: bnd_InrE)
      from goodD[OF good_call_primitive[OF ev p a] this] show ?thesis .
    next
      case False
      show ?thesis
      proof (cases "t = OT_FUNCTION")
        case True
        with r t False obtain params vals s1 c s2 s3 s4 body where
          ps: "get_params s f = Inr params"
          and ea: "eval_args (eval n) n env args s = Inr (vals, s1)"
          and ec: "env_create s1 = (c, s2)"
          and sp: "set_parent c env s2 = Inr s3"
          and bp: "bind_params n c params vals s3 = Inr s4"
          and b: "get_body s4 f = Inr body"
          and pr: "progn (eval n) n c body s4 = Inr (v, s')"
          by (auto elim!: bnd_InrE split: prod.splits)
        from goodD[OF good_eval_args[OF ev p a] ea]
        have k1: "keeps P s s1" and ov: "okp P s1 vals" by auto
        from keeps_env_create[OF keeps_priv[OF k1] ec] have k2: "keeps P s1 s2" .
        from keeps_set_parent[OF keeps_priv[OF k2] sp] have k3: "keeps P s2 s3" .
        note k13 = keeps_trans[OF k1 keeps_trans[OF k2 k3]]
        from keeps_bind_params[OF keeps_priv[OF k3]
            okp_keeps[OF k13 okp_get_params[OF p f ps]]
            okp_keeps[OF keeps_trans[OF k2 k3] ov] bp]
        have k4: "keeps P s3 s4" .
        note k14 = keeps_trans[OF k13 k4]
        from goodD[OF good_progn[OF ev keeps_priv[OF k4]
              okp_get_body[OF keeps_priv[OF k4] okp_keeps[OF k14 f] b]] pr]
        have "keeps P s4 s'" "okp P s' v" by auto
        with k14 show ?thesis by (auto intro: keeps_trans)
      next
        case False
        with r t \<open>t \<noteq> OT_PRIMITIVE\<close> have "v = Null" "s' = s" by (auto elim!: bnd_InrE)
        with p show ?thesis by (simp add: keeps_refl)
      qed
    qed
  qed
  then show ?thesis unfolding good_def by blast
qed

lemma priv_eval_Suc:
  assumes ev: "priv_ev P (eval n)"
  shows "priv_ev P (eval (Suc n))"
  unfolding priv_ev_def
proof (intro allI impI)
  fix env e s v s'
  assume p: "priv P s" and e: "okp P s e" and r: "eval (Suc n) env e s = Inr (v, s')"
  show "keeps P s s' \<and> okp P s' v"
  proof (cases "e = Null")
    case True
    with r p show ?thesis by (simp add: keeps_refl)
  next
    case False
    with r obtain t where t: "otype s e = Inr t" by (auto elim!: bnd_InrE)
    show ?thesis
    proof (cases "t = OT_CONS")
      case True
      with r False t obtain a fn s1 args where a: "get_car s e = Inr a"
        and f: "eval n env a s = Inr (fn, s1)" and ar: "get_cdr s1 e = Inr args"
        and ap: "apply_fn n env fn args s1 = Inr (v, s')"
        by (auto elim!: bnd_InrE split: prod.splits if_splits simp del: apply_fn.simps)
      from priv_evD[OF ev p okp_get_car[OF p e a] f]
      have k1: "keeps P s s1" and ofn: "okp P s1 fn" by auto
      note p1 = keeps_priv[OF k1]
      from goodD[OF good_apply_fn[OF ev p1 ofn okp_get_cdr[OF p1 okp_keeps[OF k1 e] ar]] ap]
      have "keeps P s1 s'" "okp P s' v" by auto
      with k1 show ?thesis by (auto intro: keeps_trans)
    next
      case notcons: False
      show ?thesis
      proof (cases "t = OT_SYMBOL")
        case True
        with r False t obtain nm where "env_lookup n s env nm = Inr v" and "s' = s"
          by (auto elim!: bnd_InrE)
        with okp_env_lookup[OF p] p show ?thesis by (auto simp: keeps_refl)
      next
        case False
        with r \<open>e \<noteq> Null\<close> t notcons have "s' = s" "v = e \<or> v = Null"
          by (cases t; auto)+
        with p e show ?thesis by (auto simp: keeps_refl)
      qed
    qed
  qed
qed

lemma priv_eval: "priv_ev P (eval n)"
proof (induction n)
  case 0
  show ?case by (simp add: priv_ev_def)
next
  case (Suc n)
  then show ?case by (rule priv_eval_Suc)
qed

subsection \<open>The list of values that eval_args returns\<close>

lemma args_in_order_length: "args_in_order ev env e lastp s xs vs s' \<Longrightarrow> length xs = length vs"
  by (induction rule: args_in_order.induct) auto

lemma args_in_order_det:
  "args_in_order ev env e lastp s xs vs s' \<Longrightarrow> args_in_order ev env e lastp s xs' vs' s'' \<Longrightarrow>
   xs' = xs \<and> vs' = vs \<and> s'' = s'"
proof (induction arbitrary: xs' vs' s'' rule: args_in_order.induct)
  case (no_more lastp s)
  from no_more.prems show ?case by (cases rule: args_in_order.cases) auto
next
  case (next_arg e s x v s1 lastp c s2 d xs vs s')
  from next_arg.prems next_arg.hyps(1) obtain x' v' s1' c' s2' d' ys ws where
    1: "xs' = x' # ys" "vs' = v' # ws" "get_car s e = Inr x'" "ev env x' s = Inr (v', s1')"
       "store_value lastp v' s1' = Inr (c', s2')" "get_cdr s2' e = Inr d'"
       "args_in_order ev env d' c' s2' ys ws s''"
    by (cases rule: args_in_order.cases) auto
  with next_arg.hyps have "x' = x" "v' = v" "s1' = s1" "c' = c" "s2' = s2" "d' = d" by auto
  with 1 next_arg.IH[of ys ws s''] show ?case by auto
qed

lemma eval_args_loop_of_order:
  "args_in_order ev env e lastp s xs vs s' \<Longrightarrow> (firstp = NilP \<longleftrightarrow> lastp = NilP) \<Longrightarrow>
   length vs \<le> k \<Longrightarrow> \<exists>p. eval_args_loop ev k env e firstp lastp s = Inr (p, s')"
proof (induction arbitrary: firstp k rule: args_in_order.induct)
  case (no_more lastp s)
  show ?case by (simp add: eval_args_loop_Nil)
next
  case (next_arg e s x v s1 lastp c s2 d xs vs s')
  from next_arg.prems(2) obtain k' where k: "k = Suc k'" and le: "length vs \<le> k'"
    by (cases k) auto
  obtain c0 sb where cb0: "cons v NilP s1 = (c0, sb)" by (cases "cons v NilP s1")
  with next_arg.hyps(4)
  have st0: "(if lastp = NilP then Inr (c0, sb) else bnd (set_cdr lastp c0 sb) (\<lambda>s3. Inr (c0, s3)))
       = Inr (c, s2)"
    by (simp add: store_value_def)
  then have cc: "c0 = c" by (auto split: if_splits elim!: bnd_InrE)
  have cb: "cons v NilP s1 = (c, sb)" using cb0 cc by simp
  have st: "(if lastp = NilP then Inr (c, sb) else bnd (set_cdr lastp c sb) (\<lambda>s3. Inr (c, s3)))
       = Inr (c, s2)"
    using st0 unfolding cc .
  have cn: "c \<noteq> NilP" using cb by (auto simp: cons_def new_object_def)
  define firstp' where "firstp' = (if firstp = NilP then c else firstp)"
  have f: "(if firstp = NilP then Inr (c, sb)
            else bnd (set_cdr lastp c sb) (\<lambda>s3. Inr (firstp, s3))) = Inr (firstp', s2)"
    using st next_arg.prems(1) by (auto simp: firstp'_def elim!: bnd_InrE)
  have "firstp' = NilP \<longleftrightarrow> c = NilP" using cn by (simp add: firstp'_def)
  from next_arg.IH[OF this le] obtain p
    where "eval_args_loop ev k' env d firstp' c s2 = Inr (p, s')" by blast
  with next_arg.hyps(1,2,3,5) cb f show ?case
    unfolding k eval_args_loop_Suc[OF next_arg.hyps(1)] by simp
qed

lemma okp_insert_fresh:
  "okp P s p \<Longrightarrow> length (heap s) \<le> length (heap s') \<Longrightarrow>
   okp (insert (length (heap s)) P) s' p"
  by (cases p) (auto simp: okp_def)

lemma ok_obj_insert_fresh:
  "ok_obj P s ob \<Longrightarrow> length (heap s) \<le> length (heap s') \<Longrightarrow>
   ok_obj (insert (length (heap s)) P) s' ob"
  by (cases ob) (auto simp: ok_obj_def intro: okp_insert_fresh)

lemma priv_insert_fresh:
  assumes p: "priv P s"
  shows "priv (insert (length (heap s)) P) (s\<lparr>heap := heap s @ [ob]\<rparr>)"
proof (rule privI)
  let ?s' = "s\<lparr>heap := heap s @ [ob]\<rparr>"
  have le: "length (heap s) \<le> length (heap ?s')" by simp
  {
    fix a assume a: "a < length (heap ?s')" "a \<notin> insert (length (heap s)) P"
    then have al: "a < length (heap s)" and ap: "a \<notin> P" by auto
    then have "heap ?s' ! a = heap s ! a" by (simp add: nth_append)
    with ok_obj_insert_fresh[OF priv_heapD[OF p al ap] le]
    show "ok_obj (insert (length (heap s)) P) ?s' (heap ?s' ! a)" by simp
  next
    fix fr b assume "fr \<in> set (envs ?s')" "b \<in> set (ht fr)"
    then have "okp P s (snd b)" using priv_envsD[OF p, of fr b] by simp
    from okp_insert_fresh[OF this le]
    show "okp (insert (length (heap s)) P) ?s' (snd b)" .
  next
    fix a assume "a \<in> insert (length (heap s)) P"
    with priv_domD[OF p, of a] show "a < length (heap ?s')" by auto
  }
qed

lemma priv_update_private:
  assumes p: "priv P s" and l: "l \<in> P"
  shows "priv P (s\<lparr>heap := (heap s)[l := ob]\<rparr>)"
proof (rule privI)
  let ?s' = "s\<lparr>heap := (heap s)[l := ob]\<rparr>"
  have le: "length (heap s) \<le> length (heap ?s')" by simp
  {
    fix a assume a: "a < length (heap ?s')" "a \<notin> P"
    then have al: "a < length (heap s)" by simp
    from a l have "l \<noteq> a" by auto
    then have "heap ?s' ! a = heap s ! a" by simp
    with ok_obj_mono[OF priv_heapD[OF p al a(2)] le]
    show "ok_obj P ?s' (heap ?s' ! a)" by simp
  next
    fix fr b assume "fr \<in> set (envs ?s')" "b \<in> set (ht fr)"
    then have "okp P s (snd b)" using priv_envsD[OF p, of fr b] by simp
    from okp_mono[OF this le] show "okp P ?s' (snd b)" .
  next
    fix a assume "a \<in> P"
    with priv_domD[OF p, of a] show "a < length (heap ?s')" by auto
  }
qed

lemma eval_args_loop_values:
  assumes ev: "\<And>P. priv_ev P ev"
  shows "priv P s \<Longrightarrow> okp P s e \<Longrightarrow>
     (firstp = NilP \<longrightarrow> lastp = NilP) \<Longrightarrow>
     (firstp \<noteq> NilP \<longrightarrow> (\<exists>l u. lastp = Ref l \<and> l \<in> P \<and> heap s ! l = OCons u NilP)) \<Longrightarrow>
     eval_args_loop ev k env e firstp lastp s = Inr (p, s') \<Longrightarrow>
     \<exists>xs vs. args_in_order ev env e lastp s xs vs s' \<and> length vs \<le> k
       \<and> length (heap s) \<le> length (heap s')
       \<and> (\<forall>a\<in>P. Ref a \<noteq> lastp \<longrightarrow> heap s' ! a = heap s ! a)
       \<and> (firstp = NilP \<longrightarrow> list_at s' p vs)
       \<and> (firstp \<noteq> NilP \<longrightarrow> p = firstp \<and>
            (\<forall>l. lastp = Ref l \<longrightarrow>
               (\<exists>u t. heap s ! l = OCons u NilP \<and> heap s' ! l = OCons u t \<and> list_at s' t vs)))"
proof (induction k arbitrary: e firstp lastp s P)
  case 0
  show ?case
  proof (cases "e = NilP")
    case True
    with "0.prems"(5) have "p = firstp" "s' = s" by (simp_all add: eval_args_loop_Nil)
    with True "0.prems"(4) show ?thesis
      by (intro exI[of _ "[]"]) (auto intro: args_in_order.no_more)
  next
    case False
    with "0.prems"(5) show ?thesis by (simp add: eval_args_loop_0)
  qed
next
  case (Suc k)
  show ?case
  proof (cases "e = NilP")
    case True
    with Suc.prems(5) have "p = firstp" "s' = s" by (simp_all add: eval_args_loop_Nil)
    with True Suc.prems(4) show ?thesis
      by (intro exI[of _ "[]"]) (auto intro: args_in_order.no_more)
  next
    case False
    from Suc.prems(5) obtain a v sa c sb firstp' sc d where
      a: "get_car s e = Inr a" and v: "ev env a s = Inr (v, sa)"
      and c: "cons v NilP sa = (c, sb)"
      and f: "(if firstp = NilP then Inr (c, sb)
               else bnd (set_cdr lastp c sb) (\<lambda>s3. Inr (firstp, s3))) = Inr (firstp', sc)"
      and d: "get_cdr sc e = Inr d"
      and r: "eval_args_loop ev k env d firstp' c sc = Inr (p, s')"
      unfolding eval_args_loop_Suc[OF False]
      by (auto elim!: bnd_InrE split: prod.splits)
    from priv_evD[OF ev Suc.prems(1) okp_get_car[OF Suc.prems(1,2) a] v]
    have k1: "keeps P s sa" and ov: "okp P sa v" by auto
    define n where "n = length (heap sa)"
    let ?P = "insert n P"
    from c have cn: "c = Ref n" and sb: "sb = sa\<lparr>heap := heap sa @ [OCons v NilP]\<rparr>"
      by (auto simp: cons_def new_object_def n_def)
    have pb: "priv ?P sb" unfolding sb n_def by (rule priv_insert_fresh[OF keeps_priv[OF k1]])
    have les: "length (heap s) \<le> n" using k1 by (simp add: keeps_def n_def)
    have nb: "heap sb ! n = OCons v NilP" "length (heap sb) = Suc n"
      by (simp_all add: sb n_def)
    have Pn: "a' < n" if "a' \<in> P" for a'
      using priv_domD[OF Suc.prems(1) that] les by simp
    have sab: "heap sb ! a' = heap s ! a'" if "a' \<in> P" for a'
      using Pn[OF that] k1 that by (simp add: sb nth_append n_def keeps_def)
    have st: "store_value lastp v sa = Inr (c, sc) \<and> firstp' \<noteq> NilP
        \<and> (firstp \<noteq> NilP \<longrightarrow> firstp' = firstp) \<and> (firstp = NilP \<longrightarrow> firstp' = c)
        \<and> priv ?P sc \<and> length (heap sc) = Suc n \<and> heap sc ! n = OCons v NilP
        \<and> (\<forall>a'\<in>P. Ref a' \<noteq> lastp \<longrightarrow> heap sc ! a' = heap s ! a')
        \<and> (\<forall>l. lastp = Ref l \<longrightarrow> (\<exists>u. heap s ! l = OCons u NilP \<and> heap sc ! l = OCons u c))"
    proof (cases "firstp = NilP")
      case True
      with Suc.prems(3) have ln: "lastp = NilP" by simp
      from True f have "firstp' = c" "sc = sb" by simp_all
      with True ln c cn pb nb sab show ?thesis by (simp add: store_value_def)
    next
      case False
      with Suc.prems(4) obtain l u where l: "lastp = Ref l" "l \<in> P" "heap s ! l = OCons u NilP"
        by blast
      from False f have scd: "set_cdr lastp c sb = Inr sc" and ff: "firstp' = firstp"
        by (auto elim!: bnd_InrE)
      have lb: "l < length (heap sb)" using Pn[OF l(2)] nb by simp
      with sab[OF l(2)] l have "deref sb (Ref l) = Some (OCons u NilP)" by (simp add: deref_def)
      with scd l have sc: "sc = sb\<lparr>heap := (heap sb)[l := OCons u c]\<rparr>"
        by (simp add: set_cdr_def)
      have ln: "l \<noteq> n" using Pn[OF l(2)] by simp
      have 1: "priv ?P sc" unfolding sc by (rule priv_update_private[OF pb]) (simp add: l)
      have 2: "heap sc ! a' = heap s ! a'" if "a' \<in> P" "Ref a' \<noteq> lastp" for a'
        using that sab[OF that(1)] l by (simp add: sc)
      have 3: "heap sc ! l = OCons u c" using lb by (simp add: sc)
      have 4: "heap sc ! n = OCons v NilP" using nb ln by (simp add: sc)
      have 5: "length (heap sc) = Suc n" using nb by (simp add: sc)
      have 6: "store_value lastp v sa = Inr (c, sc)"
        using c scd l by (simp add: store_value_def)
      from 1 2 3 4 5 6 False ff l show ?thesis by auto
    qed
    then have sv: "store_value lastp v sa = Inr (c, sc)" and fn: "firstp' \<noteq> NilP"
      and psc: "priv ?P sc" and lsc: "length (heap sc) = Suc n"
      and nsc: "heap sc ! n = OCons v NilP"
      and keep: "\<forall>a'\<in>P. Ref a' \<noteq> lastp \<longrightarrow> heap sc ! a' = heap s ! a'"
      and lastc: "\<forall>l. lastp = Ref l \<longrightarrow> (\<exists>u. heap s ! l = OCons u NilP \<and> heap sc ! l = OCons u c)"
      and ff: "firstp \<noteq> NilP \<longrightarrow> firstp' = firstp" "firstp = NilP \<longrightarrow> firstp' = c"
      by blast+
    have oe: "okp ?P sc e"
      using okp_insert_fresh[OF okp_keeps[OF k1 Suc.prems(2)], of sc] lsc
      by (simp add: n_def)
    from okp_get_cdr[OF psc oe d] have od: "okp ?P sc d" .
    have pre1: "firstp' = NilP \<longrightarrow> c = NilP" using fn by simp
    have pre2: "firstp' \<noteq> NilP \<longrightarrow> (\<exists>l u. c = Ref l \<and> l \<in> ?P \<and> heap sc ! l = OCons u NilP)"
      using cn nsc by simp
    from Suc.IH[OF psc od pre1 pre2 r] fn cn obtain xs vs u' t where
      ao: "args_in_order ev env d c sc xs vs s'" and len: "length vs \<le> k"
      and hl: "length (heap sc) \<le> length (heap s')"
      and keep': "\<forall>a'\<in>?P. Ref a' \<noteq> c \<longrightarrow> heap s' ! a' = heap sc ! a'"
      and pf: "p = firstp'"
      and tl: "heap sc ! n = OCons u' NilP" "heap s' ! n = OCons u' t" "list_at s' t vs"
      by blast
    from tl nsc have u': "u' = v" by simp
    have ln': "n < length (heap s')" using hl lsc by simp
    have lst: "list_at s' (Ref n) (v # vs)"
      using tl u' ln' by (simp add: deref_def)
    have A: "args_in_order ev env e lastp s (a # xs) (v # vs) s'"
      by (rule args_in_order.next_arg[OF False a v sv d ao])
    have B: "length (heap s) \<le> length (heap s')" using les hl lsc by simp
    have C: "heap s' ! a' = heap s ! a'" if "a' \<in> P" "Ref a' \<noteq> lastp" for a'
    proof -
      from Pn[OF that(1)] have "Ref a' \<noteq> c" by (simp add: cn)
      with keep' that(1) have "heap s' ! a' = heap sc ! a'" by simp
      with keep that show ?thesis by simp
    qed
    have D: "firstp = NilP \<longrightarrow> list_at s' p (v # vs)"
      using ff pf cn lst by simp
    have E: "\<exists>u t. heap s ! l = OCons u NilP \<and> heap s' ! l = OCons u t \<and> list_at s' t (v # vs)"
      if "firstp \<noteq> NilP" "lastp = Ref l" for l
    proof -
      from Suc.prems(4) that have lP: "l \<in> P" by auto
      from lastc that obtain u where u: "heap s ! l = OCons u NilP" "heap sc ! l = OCons u c"
        by blast
      from Pn[OF lP] have "Ref l \<noteq> c" by (simp add: cn)
      with keep' lP have "heap s' ! l = heap sc ! l" by simp
      with u cn lst show ?thesis by simp
    qed
    from A B C D E ff pf len show ?thesis
      by (intro exI[of _ "a # xs"] exI[of _ "v # vs"]) auto
  qed
qed

lemma eval_args_values:
  assumes ev: "\<And>P. priv_ev P ev" and cl: "priv {} s" and va: "okp {} s args"
    and r: "eval_args ev k env args s = Inr (vals, s')"
  shows "\<exists>xs vs. args_in_order ev env args NilP s xs vs s' \<and> length vs \<le> k \<and> list_at s' vals vs"
  using eval_args_loop_values[OF ev cl va, of NilP NilP k env vals s'] r
  by (auto simp: eval_args_def)

lemma eval_args_of_order:
  assumes ev: "\<And>P. priv_ev P ev" and cl: "priv {} s" and va: "okp {} s args"
    and ao: "args_in_order ev env args NilP s xs vs s'" and len: "length vs \<le> k"
  shows "\<exists>vals. eval_args ev k env args s = Inr (vals, s') \<and> list_at s' vals vs"
proof -
  from eval_args_loop_of_order[OF ao _ len, of NilP] obtain vals
    where r: "eval_args ev k env args s = Inr (vals, s')"
    by (auto simp: eval_args_def)
  from eval_args_values[OF ev cl va r] obtain xs' vs'
    where "args_in_order ev env args NilP s xs' vs' s'" and l: "list_at s' vals vs'" by blast
  from args_in_order_det[OF ao this(1)] l have "list_at s' vals vs" by simp
  with r show ?thesis by blast
qed

subsection \<open>Binding the parameters and running the body\<close>

lemma progn_loop_order:
  "progn_loop ev k env args lastp s = Inr (v, s') \<Longrightarrow>
   \<exists>xs ws. body_in_order ev env args s xs ws s' \<and> length ws \<le> k
     \<and> Some v = (if ws = [] then lastp else Some (last ws))"
proof (induction k arbitrary: args lastp s)
  case 0
  then show ?case
    by (cases "args = NilP")
       (auto simp: progn_loop_0 progn_loop_Nil split: option.splits
          intro!: exI[of _ "[]"] body_in_order.no_more)
next
  case (Suc k)
  show ?case
  proof (cases "args = NilP")
    case True
    with Suc.prems show ?thesis
      by (auto simp: progn_loop_Nil split: option.splits
          intro!: exI[of _ "[]"] body_in_order.no_more)
  next
    case False
    from Suc.prems obtain a v1 s1 d where a: "get_car s args = Inr a"
      and e: "ev env a s = Inr (v1, s1)" and d: "get_cdr s1 args = Inr d"
      and r: "progn_loop ev k env d (Some v1) s1 = Inr (v, s')"
      unfolding progn_loop_Suc[OF False] by (auto elim!: bnd_InrE split: prod.splits)
    from Suc.IH[OF r] obtain xs ws where b: "body_in_order ev env d s1 xs ws s'"
      and len: "length ws \<le> k" and l: "Some v = (if ws = [] then Some v1 else Some (last ws))"
      by blast
    from body_in_order.next_expr[OF False a e d b] len l show ?thesis
      by (intro exI[of _ "a # xs"] exI[of _ "v1 # ws"]) auto
  qed
qed

lemma progn_loop_of_order:
  "body_in_order ev env args s xs ws s' \<Longrightarrow> length ws \<le> k \<Longrightarrow>
   progn_loop ev k env args lastp s =
     (case (if ws = [] then lastp else Some (last ws)) of
        None \<Rightarrow> Inl Undefined
      | Some v \<Rightarrow> Inr (v, s'))"
proof (induction arbitrary: k lastp rule: body_in_order.induct)
  case (no_more s)
  show ?case by (simp add: progn_loop_Nil)
next
  case (next_expr e s x v s1 d xs vs s')
  from next_expr.prems obtain k' where k: "k = Suc k'" and le: "length vs \<le> k'"
    by (cases k) auto
  from next_expr.IH[OF le, of "Some v"] next_expr.hyps(1,2,3,4) show ?case
    unfolding k progn_loop_Suc[OF next_expr.hyps(1)] by simp
qed

lemma list_at_heap_cong: "heap s' = heap s \<Longrightarrow> list_at s' p xs = list_at s p xs"
  by (induction xs arbitrary: p)
     (auto simp: deref_heap_cong[of s' s] split: option.splits obj.splits)

lemma bind_params_end: "cells s params [] \<Longrightarrow> bind_params k c params vals s = Inr s"
  by (cases k) (auto simp: bind_params_0 bind_params_Suc split: sum.splits)

lemma bind_params_values:
  assumes "cells s params ps" and "map (get_name s) ps = map Inr ns" and "list_at s vals vs"
    and "length ps \<le> length vs + 1" and "length ps \<le> k" and "c < length (envs s)"
  shows "bind_params k c params vals s =
     Inr (s\<lparr>envs := (envs s)[c := (envs s ! c)\<lparr>ht := bind_all ns (vs @ [Null]) (ht (envs s ! c))\<rparr>]\<rparr>)"
  using assms
proof (induction ps arbitrary: params vals vs ns s k)
  case Nil
  from Nil.prems(2) have "ns = []" by simp
  with bind_params_end[OF Nil.prems(1), of k c vals] Nil.prems(6) show ?case
    by (simp add: bind_all_def)
next
  case (Cons p ps)
  from Cons.prems(1) obtain d where d: "deref s params = Some (OCons p d)" and cd: "cells s d ps"
    by (auto split: option.splits obj.splits)
  from Cons.prems(2) obtain nm ns' where ns: "ns = nm # ns'" and nm: "get_name s p = Inr nm"
    and nms: "map (get_name s) ps = map Inr ns'"
    by (cases ns) auto
  from Cons.prems(5) obtain k' where k: "k = Suc k'" and lek: "length ps \<le> k'"
    by (cases k) auto
  show ?case
  proof (cases vs)
    case Nil
    with Cons.prems(3,4) have vn: "vals = NilP" and pn: "ps = []" by simp_all
    define s1 where "s1 = s\<lparr>envs := (envs s)[c := (envs s ! c)\<lparr>ht := AList.update nm Null (ht (envs s ! c))\<rparr>]\<rparr>"
    have hi: "ht_insert c nm Null s = Inr s1"
      using Cons.prems(6) by (simp add: ht_insert_def s1_def)
    have h1: "heap s1 = heap s" by (simp add: s1_def)
    have d1: "deref s1 params = Some (OCons p d)" using d by (simp add: deref_heap_cong[OF h1])
    have "cells s1 d ps" using cd by (simp only: cells_heap_cong[OF h1])
    then have "cells s1 d []" unfolding pn .
    from bind_params_end[OF this, of k' c Null]
    have "bind_params k c params vals s = Inr s1"
      unfolding k bind_params_Suc using d nm hi d1 vn by simp
    moreover have "s1 = s\<lparr>envs := (envs s)[c := (envs s ! c)\<lparr>ht := bind_all ns (vs @ [Null]) (ht (envs s ! c))\<rparr>]\<rparr>"
      using ns nms pn Nil by (simp add: s1_def bind_all_def)
    ultimately show ?thesis by simp
  next
    case (Cons v vs')
    with Cons.prems(3) obtain dv where dv: "deref s vals = Some (OCons v dv)"
      and cv: "list_at s dv vs'"
      by (auto split: option.splits obj.splits)
    from Cons Cons.prems(4) have le: "length ps \<le> length vs' + 1" by simp
    define s1 where "s1 = s\<lparr>envs := (envs s)[c := (envs s ! c)\<lparr>ht := AList.update nm v (ht (envs s ! c))\<rparr>]\<rparr>"
    have hi: "ht_insert c nm v s = Inr s1"
      using Cons.prems(6) by (simp add: ht_insert_def s1_def)
    have h1: "heap s1 = heap s" by (simp add: s1_def)
    have c1: "c < length (envs s1)" using Cons.prems(6) by (simp add: s1_def)
    have nms1: "map (get_name s1) ps = map Inr ns'"
      using nms by (simp add: get_name_heap_cong[OF h1])
    have ih: "bind_params k' c d dv s1 =
       Inr (s1\<lparr>envs := (envs s1)[c := (envs s1 ! c)\<lparr>ht := bind_all ns' (vs' @ [Null]) (ht (envs s1 ! c))\<rparr>]\<rparr>)"
      using Cons.IH[of s1 d ns' dv vs' k'] cd cv nms1 le lek c1
      by (simp add: cells_heap_cong[OF h1] list_at_heap_cong[OF h1])
    have fin: "s1\<lparr>envs := (envs s1)[c := (envs s1 ! c)\<lparr>ht := bind_all ns' (vs' @ [Null]) (ht (envs s1 ! c))\<rparr>]\<rparr>
        = s\<lparr>envs := (envs s)[c := (envs s ! c)\<lparr>ht := bind_all ns (vs @ [Null]) (ht (envs s ! c))\<rparr>]\<rparr>"
      using Cons.prems(6) by (simp add: s1_def ns Cons bind_all_def)
    have d1: "deref s1 params = Some (OCons p d)" "deref s1 vals = Some (OCons v dv)"
      using d dv by (simp_all add: deref_heap_cong[OF h1])
    show ?thesis
      unfolding k bind_params_Suc
      using d dv nm hi d1 ih fin by simp
  qed
qed

lemma otype_cons_deref: "otype s p = Inr OT_CONS \<Longrightarrow> \<exists>a d. deref s p = Some (OCons a d)"
  by (auto simp: otype_def split: ptr.splits option.splits obj.splits)

lemma bind_params_returns:
  "bind_params k c params vals s = Inr s' \<Longrightarrow> list_at s vals vs \<Longrightarrow>
   \<exists>ps ns. cells s params ps \<and> map (get_name s) ps = map Inr ns
     \<and> length ps \<le> length vs + 1 \<and> length ps \<le> k"
proof (induction k arbitrary: params vals vs s)
  case 0
  from "0.prems"(1) obtain t where t: "otype s params = Inr t" "t \<noteq> OT_CONS"
    by (auto simp: bind_params_0 elim!: bnd_InrE split: if_splits)
  then have "cells s params []" by simp
  then show ?case by (intro exI[of _ "[]"]) simp
next
  case (Suc k)
  from Suc.prems(1) obtain t where t: "otype s params = Inr t"
    unfolding bind_params_Suc by (auto elim!: bnd_InrE)
  show ?case
  proof (cases "t = OT_CONS")
    case False
    with t have "cells s params []" by simp
    then show ?thesis by (intro exI[of _ "[]"]) simp
  next
    case True
    with t Suc.prems(1) obtain p nm v s1 d dv where p: "get_car s params = Inr p"
      and nm: "get_name s p = Inr nm"
      and v: "get_car s vals = Inr v" and hi: "ht_insert c nm v s = Inr s1"
      and d: "get_cdr s1 params = Inr d" and dv: "get_cdr s1 vals = Inr dv"
      and r: "bind_params k c d dv s1 = Inr s'"
      unfolding bind_params_Suc by (auto elim!: bnd_InrE)
    from hi have h1: "heap s1 = heap s" by (auto simp: ht_insert_def split: if_splits)
    from otype_cons_deref t True obtain p0 d0 where pd: "deref s params = Some (OCons p0 d0)"
      by blast
    with p d h1 have pd': "deref s params = Some (OCons p d)"
      by (simp add: deref_heap_cong[OF h1, symmetric])
    show ?thesis
    proof (cases vs)
      case Nil
      with Suc.prems(2) have "vals = NilP" by simp
      with dv have dvn: "dv = Null" by simp
      from r obtain t' where t': "otype s1 d = Inr t'"
        by (cases k) (auto simp: bind_params_0 bind_params_Suc elim!: bnd_InrE)
      have "t' \<noteq> OT_CONS"
      proof
        assume "t' = OT_CONS"
        with r t' dvn show False
          by (cases k) (auto simp: bind_params_0 bind_params_Suc elim!: bnd_InrE)
      qed
      with t' have "cells s1 d []" by simp
      then have "cells s d []" by (simp only: cells_heap_cong[OF h1])
      with pd' have "cells s params [p]" by simp
      with nm Nil show ?thesis
        by (intro exI[of _ "[p]"] exI[of _ "[nm]"]) simp
    next
      case (Cons v0 vs')
      with Suc.prems(2) obtain dv0 where dv0: "deref s vals = Some (OCons v0 dv0)"
        and l: "list_at s dv0 vs'"
        by (auto split: option.splits obj.splits)
      with dv h1 have "dv = dv0" by (simp add: deref_heap_cong[OF h1, symmetric])
      with l have "list_at s1 dv vs'" by (simp add: list_at_heap_cong[OF h1])
      from Suc.IH[OF r this] obtain ps ns where c: "cells s1 d ps"
        and n: "map (get_name s1) ps = map Inr ns"
        and le: "length ps \<le> length vs' + 1" "length ps \<le> k"
        by blast
      from c have "cells s d ps" by (simp only: cells_heap_cong[OF h1])
      with pd' have "cells s params (p # ps)" by simp
      moreover from n nm have "map (get_name s) (p # ps) = map Inr (nm # ns)"
        by (simp add: get_name_heap_cong[OF h1])
      ultimately show ?thesis using le Cons
        by (intro exI[of _ "p # ps"] exI[of _ "nm # ns"]) simp
    qed
  qed
qed

lemma valid_okp: "valid s p \<longleftrightarrow> okp {} s p"
  by (cases p) (simp_all add: valid_def okp_def)

lemma valid_obj_ok: "valid_obj s ob \<longleftrightarrow> ok_obj {} s ob"
  by (cases ob) (simp_all add: valid_obj_def ok_obj_def valid_okp)

lemma closed_priv: "closed s \<Longrightarrow> priv {} s"
  unfolding closed_def by (rule privI) (simp_all add: valid_obj_ok valid_okp)

lemma apply_closure_steps:
  assumes fn: "deref s f = Some (OFunction params body)"
    and ea: "eval_args (eval n) n env args s = Inr (vals, s1)"
  shows "apply_fn n env f args s =
     bnd (bind_params n (length (envs s1)) params vals
            (s1\<lparr>envs := envs s1 @ [\<lparr>ht = [], parent = Some env\<rparr>]\<rparr>))
       (\<lambda>s4. progn (eval n) n (length (envs s1)) body s4)"
proof -
  define sa where "sa = s1\<lparr>envs := envs s1 @ [\<lparr>ht = [], parent = None\<rparr>]\<rparr>"
  define sb where "sb = s1\<lparr>envs := envs s1 @ [\<lparr>ht = [], parent = Some env\<rparr>]\<rparr>"
  have ec: "env_create s1 = (length (envs s1), sa)"
    by (simp add: env_create_def sa_def)
  have sp: "set_parent (length (envs s1)) env sa = Inr sb"
    by (simp add: set_parent_def sa_def sb_def)
  have f1: "deref s1 f = Some (OFunction params body)"
    using ext_deref_keep[OF ext_eval_args[OF ext_eval ea] fn] .
  have f4: "get_body s4 f = Inr body"
    if "bind_params n (length (envs s1)) params vals sb = Inr s4" for s4
  proof -
    from ext_bind_params[OF that] have "ext sb s4" .
    moreover have "deref sb f = Some (OFunction params body)" using f1 by (simp add: sb_def deref_heap_cong[of sb s1])
    ultimately have "deref s4 f = Some (OFunction params body)" by (rule ext_deref_keep)
    then show ?thesis by simp
  qed
  show ?thesis
  proof (cases "bind_params n (length (envs s1)) params vals sb")
    case (Inl e)
    with fn ea ec sp show ?thesis by (simp add: sb_def[symmetric])
  next
    case (Inr s4)
    with fn ea ec sp f4[OF Inr] show ?thesis by (simp add: sb_def[symmetric])
  qed
qed

lemma priv_closed: "priv {} s \<Longrightarrow> closed s"
  unfolding closed_def
proof (intro conjI ballI)
  fix ob assume p: "priv {} s" and "ob \<in> set (heap s)"
  then obtain a where "a < length (heap s)" "heap s ! a = ob" by (auto simp: in_set_conv_nth)
  with priv_heapD[OF p, of a] show "valid_obj s ob" by (simp add: valid_obj_ok)
next
  fix fr b assume "priv {} s" "fr \<in> set (envs s)" "b \<in> set (ht fr)"
  from priv_envsD[OF this] show "valid s (snd b)" by (simp add: valid_okp)
qed

lemma closed_eval:
  assumes "closed s" and "valid s e" and "eval n env e s = Inr (v, s')"
  shows "closed s' \<and> valid s' v"
  using priv_evD[OF priv_eval closed_priv[OF assms(1)] _ assms(3)] assms(2)
  by (auto simp: valid_okp dest: keeps_priv priv_closed)

lemma under_applied:
  "value_of (eval 5 0 (fst (load ''((lambda (x y) x) 1)'')) (snd (load ''((lambda (x y) x) 1)'')))
     = Inr (Some (OInt 1))"
  by code_simp

lemma in_order_example:
  "value_of (eval 5 0 (fst (load ''((lambda (a b) a) 1 2)'')) (snd (load ''((lambda (a b) a) 1 2)'')))
     = Inr (Some (OInt 1))"
  by code_simp

text \<open>
  C1. Let \<open>f\<close> be a closure with the parameter list \<open>params\<close> and the body
  \<open>body\<close>, in a state without a pointer to an object not yet allocated, and let
  \<open>env\<close> be the environment of the caller. The call \<open>apply_fn n env f args s\<close>
  returns the value \<open>v\<close> and the state \<open>s'\<close> exactly when all of this holds, the
  bound \<open>n\<close> being enough for the three loops:
  \<^item> the argument expressions \<open>xs\<close>, taken from the list \<open>args\<close> from left to right,
    are evaluated by \<^verbatim>\<open>eval\<close> with \<open>env\<close>, each in the state that the one before
    left, and give the values \<open>vs\<close>, in this order, and the state \<open>s1\<close>;
  \<^item> the parameters \<open>ps\<close> are symbols, with the names \<open>ns\<close>, and there is at most
    one more of them than there are values;
  \<^item> the body expressions \<open>bs\<close> are evaluated in sequence, with the values \<open>ws\<close>, in
    the state \<open>s1\<close> with one more frame, which is their environment: a frame that
    did not exist before, whose parent is \<open>env\<close>, and whose table, starting empty,
    binds the names \<open>ns\<close> position by position to the values \<open>vs\<close> (a last
    parameter that has no argument is bound to \<^verbatim>\<open>NULL\<close>, the \<^verbatim>\<open>car\<close> member of the
    static \<^verbatim>\<open>Nil\<close>);
  \<^item> there is a body expression, and \<open>v\<close> is the value of the last one.

  A closure holds no environment at all, so the environment it was created in
  plays no part: in \<open>scoping_example\<close>, \<^verbatim>\<open>(g 100)\<close> calls \<^verbatim>\<open>(f 10)\<close> from a frame
  that binds \<^verbatim>\<open>x\<close> to \<open>100\<close>, and the result is \<open>110\<close>, not \<open>15\<close>. The other two
  evaluations are those of \<^verbatim>\<open>((lambda (a b) a) 1 2)\<close> and of
  \<^verbatim>\<open>((lambda (x y) x) 1)\<close> in the initial environment.
\<close>

theorem apply_closure:
  assumes cl: "closed s" and va: "valid s args"
    and fn: "deref s f = Some (OFunction params body)"
  shows "(apply_fn n env f args s = Inr (v, s') \<longleftrightarrow>
     (\<exists>xs vs s1 ps ns bs ws.
        args_in_order (eval n) env args NilP s xs vs s1 \<and> length vs \<le> n
      \<and> cells s1 params ps \<and> map (get_name s1) ps = map Inr ns
      \<and> length ps \<le> n \<and> length ps \<le> length vs + 1
      \<and> body_in_order (eval n) (length (envs s1)) body
           (s1\<lparr>envs := envs s1 @ [\<lparr>ht = bind_all ns (vs @ [Null]) [], parent = Some env\<rparr>]\<rparr>)
           bs ws s'
      \<and> length ws \<le> n \<and> ws \<noteq> [] \<and> v = last ws))
   \<and> value_of (eval 8 0 (fst scoping_example) (snd scoping_example)) = Inr (Some (OInt 110))
   \<and> value_of (eval 5 0 (fst (load ''((lambda (a b) a) 1 2)''))
        (snd (load ''((lambda (a b) a) 1 2)''))) = Inr (Some (OInt 1))
   \<and> value_of (eval 5 0 (fst (load ''((lambda (x y) x) 1)''))
        (snd (load ''((lambda (x y) x) 1)''))) = Inr (Some (OInt 1))"
    (is "(?L \<longleftrightarrow> ?R) \<and> _")
proof -
  have returns: "?L \<longleftrightarrow> ?R"
  proof
    note p0 = closed_priv[OF cl]
    from va have a0: "okp {} s args" by (simp add: valid_okp)
    assume l: ?L
    from l fn obtain vals s1 where ea: "eval_args (eval n) n env args s = Inr (vals, s1)"
      by (auto elim!: bnd_InrE split: prod.splits)
    let ?sb = "s1\<lparr>envs := envs s1 @ [\<lparr>ht = [], parent = Some env\<rparr>]\<rparr>"
    let ?c = "length (envs s1)"
    from l obtain s4 where bp: "bind_params n ?c params vals ?sb = Inr s4"
      and pr: "progn (eval n) n ?c body s4 = Inr (v, s')"
      unfolding apply_closure_steps[OF fn ea] by (auto elim!: bnd_InrE)
    from eval_args_values[OF priv_eval p0 a0 ea] obtain xs vs
      where ao: "args_in_order (eval n) env args NilP s xs vs s1" and len: "length vs \<le> n"
        and la: "list_at s1 vals vs" by blast
    have hb: "heap ?sb = heap s1" by simp
    from la have lb: "list_at ?sb vals vs" by (simp only: list_at_heap_cong[OF hb])
    from bind_params_returns[OF bp lb] obtain ps ns where cs: "cells ?sb params ps"
      and nm: "map (get_name ?sb) ps = map Inr ns"
      and le: "length ps \<le> length vs + 1" "length ps \<le> n" by blast
    have cb: "?c < length (envs ?sb)" by simp
    from bind_params_values[OF cs nm lb le cb] bp
    have s4: "s4 = s1\<lparr>envs := envs s1 @ [\<lparr>ht = bind_all ns (vs @ [Null]) [], parent = Some env\<rparr>]\<rparr>"
      by simp
    from cs have cs1: "cells s1 params ps" by (simp only: cells_heap_cong[OF hb])
    from nm have nm1: "map (get_name s1) ps = map Inr ns" by (simp only: get_name_heap_cong[OF hb])
    from progn_loop_order[OF pr[unfolded progn_def]] obtain bs ws
      where bo: "body_in_order (eval n) ?c body s4 bs ws s'" and lw: "length ws \<le> n"
        and lv: "Some v = (if ws = [] then None else Some (last ws))" by blast
    from lv have "ws \<noteq> []" "v = last ws" by (auto split: if_splits)
    with ao len cs1 nm1 le bo[unfolded s4] lw show ?R by blast
  next
    note p0 = closed_priv[OF cl]
    from va have a0: "okp {} s args" by (simp add: valid_okp)
    assume ?R
    then obtain xs vs s1 ps ns bs ws where
      ao: "args_in_order (eval n) env args NilP s xs vs s1" and len: "length vs \<le> n"
      and cs1: "cells s1 params ps" and nm1: "map (get_name s1) ps = map Inr ns"
      and le: "length ps \<le> n" "length ps \<le> length vs + 1"
      and bo: "body_in_order (eval n) (length (envs s1)) body
             (s1\<lparr>envs := envs s1 @ [\<lparr>ht = bind_all ns (vs @ [Null]) [], parent = Some env\<rparr>]\<rparr>)
             bs ws s'"
      and lw: "length ws \<le> n" and ws: "ws \<noteq> []" and v: "v = last ws"
      by blast
    let ?sb = "s1\<lparr>envs := envs s1 @ [\<lparr>ht = [], parent = Some env\<rparr>]\<rparr>"
    let ?c = "length (envs s1)"
    from eval_args_of_order[OF priv_eval p0 a0 ao len] obtain vals
      where ea: "eval_args (eval n) n env args s = Inr (vals, s1)" and la: "list_at s1 vals vs"
      by blast
    have hb: "heap ?sb = heap s1" by simp
    from la have lb: "list_at ?sb vals vs" by (simp only: list_at_heap_cong[OF hb])
    from cs1 have cs: "cells ?sb params ps" by (simp only: cells_heap_cong[OF hb])
    from nm1 have nm: "map (get_name ?sb) ps = map Inr ns" by (simp only: get_name_heap_cong[OF hb])
    have cb: "?c < length (envs ?sb)" by simp
    from bind_params_values[OF cs nm lb le(2,1) cb]
    have bp: "bind_params n ?c params vals ?sb
        = Inr (s1\<lparr>envs := envs s1 @ [\<lparr>ht = bind_all ns (vs @ [Null]) [], parent = Some env\<rparr>]\<rparr>)"
      by simp
    from progn_loop_of_order[OF bo lw, of None] ws v
    show ?L
      unfolding apply_closure_steps[OF fn ea] bp by (simp add: progn_def)
  qed
  show ?thesis
    by (rule conjI[OF returns conjI[OF dynamic_scoping conjI[OF in_order_example under_applied]]])
qed

theorem apply_closure_witness:
  "\<exists>xs vs s1 ps ns bs ws.
      args_in_order (eval 4) 0 (Ref 35) NilP closure_example xs vs s1 \<and> length vs \<le> 4
    \<and> cells s1 (Ref 24) ps \<and> map (get_name s1) ps = map Inr ns
    \<and> length ps \<le> 4 \<and> length ps \<le> length vs + 1
    \<and> body_in_order (eval 4) (length (envs s1)) (Ref 32)
         (s1\<lparr>envs := envs s1 @ [\<lparr>ht = bind_all ns (vs @ [Null]) [], parent = Some 0\<rparr>]\<rparr>)
         bs ws (state_of (apply_fn 4 0 (Ref 36) (Ref 35) closure_example))
    \<and> length ws \<le> 4 \<and> ws \<noteq> [] \<and> Ref 40 = last ws"
proof -
  have cl: "closed closure_example" by code_simp
  have va: "valid closure_example (Ref 35)" by code_simp
  have fn: "deref closure_example (Ref 36) = Some (OFunction (Ref 24) (Ref 32))" by code_simp
  have r: "apply_fn 4 0 (Ref 36) (Ref 35) closure_example
      = Inr (Ref 40, state_of (apply_fn 4 0 (Ref 36) (Ref 35) closure_example))"
    by code_simp
  from apply_closure[OF cl va fn, THEN conjunct1, THEN iffD1, OF r] show ?thesis .
qed

section \<open>Reading an integer\<close>

lemma int32_mod: "int32 x mod 4294967296 = x mod 4294967296"
  by (simp add: int32_def mod_diff_left_eq)

lemma int32_cong: "x mod 4294967296 = y mod 4294967296 \<Longrightarrow> int32 x = int32 y"
  unfolding int32_def using mod_add_cong[of x 4294967296 y 2147483648 2147483648] by simp

lemma int32_step: "int32 (int32 x * 10 + d) = int32 (x * 10 + d)"
  by (rule int32_cong) (intro mod_add_cong mod_mult_cong int32_mod refl)

lemma int32_neg: "int32 (- int32 x) = int32 (- x)"
  by (rule int32_cong) (intro mod_minus_cong int32_mod)

lemma int32_id: "- 2147483648 \<le> x \<Longrightarrow> x < 2147483648 \<Longrightarrow> int32 x = x"
  unfolding int32_def by simp

lemma int32_0 [simp]: "int32 0 = 0"
  by (simp add: int32_def)

lemma peek_simps [simp]: "peek [] = None" "peek (c # cs) = Some c"
  by (simp_all add: peek_def getchar_def)

lemma getchar_simps [simp]: "getchar [] = (None, [])" "getchar (c # cs) = (Some c, cs)"
  by (simp_all add: getchar_def)

lemma ungetc_simps [simp]: "ungetc None inp = inp" "ungetc (Some c) inp = c # inp"
  by (simp_all add: ungetc_def)

lemma read_number_loop_digits:
  "\<forall>c\<in>set ds. isdigit (Some c) \<Longrightarrow> \<not> isdigit (peek rest) \<Longrightarrow>
   read_number_loop (int32 x) (ds @ rest)
     = (int32 (foldl (\<lambda>v c. v * 10 + (of_char c - 48)) x ds), rest)"
proof (induction ds arbitrary: x)
  case Nil
  then show ?case by (cases rest) simp_all
next
  case (Cons d ds)
  then show ?case
    using Cons.IH[of "x * 10 + (of_char d - 48)"] by (simp add: int32_step)
qed

lemma read_number_digits:
  assumes "\<forall>c\<in>set ds. isdigit (Some c)" and "\<not> isdigit (peek rest)"
  shows "read_number isp (ds @ rest) s =
     (Ref (length (heap s)), rest,
      s\<lparr>heap := heap s @ [OInt (if isp then int32 (decimal ds) else int32 (- decimal ds))]\<rparr>)"
  using read_number_loop_digits[OF assms, of 0]
  by (simp add: read_number_def new_object_def decimal_def int32_neg)

lemma digit_not_space: "isdigit (Some c) \<Longrightarrow> \<not> isspace (Some c)"
  by (auto simp: isdigit_def isspace_def)

lemma minus_class: "\<not> isspace (Some CHR ''-'')" "\<not> isdigit (Some CHR ''-'')"
  by (simp_all add: isspace_def isdigit_def)

lemma digit_value: "isdigit (Some c) \<Longrightarrow> (48::int) \<le> of_char c"
  unfolding isdigit_def
  by (elim disjE | simp only: option.case set_simps insert_iff empty_iff)+ (simp_all)

lemma decimal_nonneg:
  "0 \<le> x \<Longrightarrow> \<forall>c\<in>set cs. isdigit (Some c) \<Longrightarrow>
   0 \<le> foldl (\<lambda>v c. v * 10 + (of_char c - 48)) (x::int) cs"
proof (induction cs arbitrary: x)
  case Nil
  then show ?case by simp
next
  case (Cons c cs)
  from Cons.prems(2) have "isdigit (Some c)" by simp
  then have "(48::int) \<le> of_char c" by (rule digit_value)
  with Cons.prems(1) have "0 \<le> x * 10 + (of_char c - 48)" by simp
  with Cons.IH[of "x * 10 + (of_char c - 48)"] Cons.prems(2) show ?case by simp
qed

text \<open>
  C5, as the code has it. The value of an integer object is a 32-bit \<^verbatim>\<open>int\<close>. For
  a token that is a minus sign followed by the digits \<open>ds\<close>, \<^verbatim>\<open>read\<close> consumes the
  sign and the digits, nothing else, and returns a new integer: the negation of the
  base-10 number of \<open>ds\<close>, reduced to the 32-bit range. For a token that starts
  with a digit, \<^verbatim>\<open>read\<close> consumes the digits and returns the base-10 number
  reduced to the 32-bit range, when the sign flag that \<^verbatim>\<open>read_number\<close> finds is not
  zero (the call passes none; this statement says nothing about the other case).
  A number below \<open>2^31\<close> is not changed by the reduction.
\<close>

theorem read_integer_literal:
  assumes ds: "ds \<noteq> []" "\<forall>c\<in>set ds. isdigit (Some c)" and rest: "\<not> isdigit (peek rest)"
  shows "read ip (Suc n) (CHR ''-'' # ds @ rest) s =
           Inr (Ref (length (heap s)), rest, s\<lparr>heap := heap s @ [OInt (int32 (- decimal ds))]\<rparr>)
       \<and> (ip \<longrightarrow> read ip (Suc n) (ds @ rest) s =
           Inr (Ref (length (heap s)), rest, s\<lparr>heap := heap s @ [OInt (int32 (decimal ds))]\<rparr>))
       \<and> (decimal ds < 2147483648 \<longrightarrow>
            int32 (decimal ds) = decimal ds \<and> int32 (- decimal ds) = - decimal ds)"
proof -
  from ds obtain d ds' where dd: "ds = d # ds'" by (cases ds) auto
  with ds have d: "isdigit (Some d)" by simp
  have pk: "isdigit (peek (ds @ rest))" using d by (simp add: dd)
  have neg: "read ip (Suc n) (CHR ''-'' # ds @ rest) s =
           Inr (Ref (length (heap s)), rest, s\<lparr>heap := heap s @ [OInt (int32 (- decimal ds))]\<rparr>)"
    using read_number_digits[OF ds(2) rest, of False s] pk minus_class
    by simp
  have pos: "read ip (Suc n) (ds @ rest) s =
           Inr (Ref (length (heap s)), rest, s\<lparr>heap := heap s @ [OInt (int32 (decimal ds))]\<rparr>)"
    if ip
  proof -
    have "read ip (Suc n) (d # ds' @ rest) s = Inr (read_number ip (d # ds' @ rest) s)"
      using d digit_not_space[OF d] by simp
    then show ?thesis
      using read_number_digits[OF ds(2) rest, of ip s] that by (simp add: dd)
  qed
  have rng: "int32 (decimal ds) = decimal ds \<and> int32 (- decimal ds) = - decimal ds"
    if "decimal ds < 2147483648"
    using that decimal_nonneg[of 0 ds] ds(2) by (simp add: decimal_def int32_id)
  show ?thesis using neg pos rng by blast
qed

text \<open>
  The claim of C5 as it is stated fails for a literal outside the 32-bit range:
  \<^verbatim>\<open>-4294967297\<close> reads as \<open>-1\<close>.
\<close>

theorem read_integer_overflow:
  "read True 2 ''-4294967297'' empty_state
     = Inr (Ref 0, [], \<lparr>heap = [OInt (- 1)], envs = [], out = []\<rparr>)"
  by code_simp

theorem read_integer_literal_witness:
  "read True 1 ''-42)'' empty_state = Inr (Ref 0, '')'', \<lparr>heap = [OInt (- 42)], envs = [], out = []\<rparr>)
   \<and> read True 1 ''42)'' empty_state = Inr (Ref 0, '')'', \<lparr>heap = [OInt 42], envs = [], out = []\<rparr>)"
proof -
  have 1: "''42'' \<noteq> []" by simp
  have 2: "\<forall>c\<in>set ''42''. isdigit (Some c)" by (simp add: isdigit_def)
  have 3: "\<not> isdigit (peek '')'')" by (simp add: isdigit_def)
  have 4: "decimal ''42'' = 42" by (simp add: decimal_def)
  have 5: "int32 42 = 42" "int32 (- 42) = - 42" by (simp_all add: int32_def)
  show ?thesis
    using read_integer_literal[OF 1 2 3, of True 0 empty_state] 4 5
    by (simp add: empty_state_def)
qed

section \<open>Printing a tree\<close>

text \<open>
  \<^verbatim>\<open>print\<close> writes the text of the tree that its argument is, when the bound on
  the loops is above the length of that text.
\<close>

lemma printf_printf [simp]: "printf b (printf a s) = printf (a @ b) s"
  by (simp add: printf_def)

lemma deref_printf [simp]: "deref (printf txt s) p = deref s p"
  by (simp add: printf_def)

lemma reprb_atom:
  "reprb lo b (heap s) p (SInt i) \<Longrightarrow> deref s p = Some (OInt i)"
  "reprb lo b (heap s) p (SSym nm) \<Longrightarrow> deref s p = Some (OSymbol nm)"
  by (auto simp: deref_def split: ptr.splits)

lemma reprb_list_Cons:
  "reprb_list lo b (heap s) p (t # ts) \<Longrightarrow>
   \<exists>x d. deref s p = Some (OCons x d) \<and> reprb lo b (heap s) x t \<and> reprb_list lo b (heap s) d ts"
  by (auto simp: deref_def split: ptr.splits obj.splits)

lemma print_loop_repr:
  assumes el: "\<And>t s p k. t \<in> set ts \<Longrightarrow> reprb lo b (heap s) p t \<Longrightarrow> length (show_sx t) < k \<Longrightarrow>
      print k p s = Inr (printf (show_sx t) s)"
  shows "reprb_list lo b (heap s) p us \<Longrightarrow> us \<noteq> [] \<Longrightarrow> set us \<subseteq> set ts \<Longrightarrow>
     length (show_tail us) < m \<Longrightarrow>
     print_loop m p s = Inr (printf (show_sx (hd us) @ show_tail (tl us)) s)"
proof (induction us arbitrary: s p m)
  case Nil
  then show ?case by simp
next
  case (Cons u us)
  from reprb_list_Cons[OF Cons.prems(1)] obtain x d where d: "deref s p = Some (OCons x d)"
    and x: "reprb lo b (heap s) x u" and r: "reprb_list lo b (heap s) d us"
    by blast
  from Cons.prems(4) obtain m' where m: "m = Suc m'" and lu: "length (show_sx u) < m'"
    and lt: "length (show_tail us) < m'"
    by (cases m) auto
  have pu: "print m' x s = Inr (printf (show_sx u) s)"
    using el[of u s x m'] Cons.prems(3) x lu by simp
  show ?case
  proof (cases us)
    case Nil
    with r have "d = NilP" by simp
    with d pu show ?thesis by (simp add: m Nil)
  next
    case (Cons u' us')
    with r have dn: "d \<noteq> NilP" by (auto split: ptr.splits)
    have r': "reprb_list lo b (heap (printf (show_sx u @ '' '') s)) d us"
      using r by simp
    have "print_loop m' d (printf (show_sx u @ '' '') s)
        = Inr (printf (show_sx (hd us) @ show_tail (tl us)) (printf (show_sx u @ '' '') s))"
      using Cons.IH[OF r' _ _ lt] Cons.prems(3) Cons by simp
    with d pu dn show ?thesis by (simp add: m Cons)
  qed
qed

lemma print_repr:
  "reprb lo b (heap s) p t \<Longrightarrow> length (show_sx t) < k \<Longrightarrow> print k p s = Inr (printf (show_sx t) s)"
proof (induction t arbitrary: s p k)
  case (SInt i)
  from reprb_atom(1)[OF SInt.prems(1)] SInt.prems(2) show ?case by (cases k) auto
next
  case (SSym nm)
  from reprb_atom(2)[OF SSym.prems(1)] SSym.prems(2) show ?case by (cases k) auto
next
  case SNil
  then show ?case by (cases k) auto
next
  case STrue
  then show ?case by (cases k) auto
next
  case (SList ts)
  from SList.prems(1) obtain t ts' where ts: "ts = t # ts'" and r: "reprb_list lo b (heap s) p ts"
    by (cases ts) auto
  from reprb_list_Cons[OF r[unfolded ts]] obtain x d where d: "deref s p = Some (OCons x d)"
    by blast
  from SList.prems(2) ts obtain k' where k: "k = Suc k'" and l: "length (show_tail ts) < k'"
    by (cases k) auto
  have r': "reprb_list lo b (heap (printf ''('' s)) p ts"
    using r by simp
  have "print_loop k' p (printf ''('' s)
      = Inr (printf (show_sx (hd ts) @ show_tail (tl ts)) (printf ''('' s))"
    using print_loop_repr[of ts lo b "printf ''('' s" p ts k'] SList.IH r' l ts by simp
  with d show ?case by (simp add: k ts)
qed

section \<open>Reading a symbol\<close>

lemma not_symbol_char_0: "\<not> symbol_char (CHR 0x00)"
  by (simp add: symbol_char_def isalnum_def isalpha_def isdigit_def symbol_special_chars_def)

lemma symbol_char_cases:
  assumes "symbol_char c"
  obtains "c \<in> set ''abcdefghijklmnopqrstuvwxyzABCDEFGHIJKLMNOPQRSTUVWXYZ''"
    | "c \<in> set ''0123456789''" | "c \<in> set ''+-_<>=?*''"
  using assms
  unfolding symbol_char_def isalnum_def isalpha_def isdigit_def symbol_special_chars_def option.case
  by blast

lemma letter_not_space:
  "c \<in> set ''abcdefghijklmnopqrstuvwxyzABCDEFGHIJKLMNOPQRSTUVWXYZ'' \<Longrightarrow>
   \<not> isspace (Some c) \<and> c \<noteq> CHR '')'' \<and> c \<noteq> CHR ''(''"
  by (elim disjE | simp only: set_simps insert_iff empty_iff)+ (simp_all add: isspace_def)

lemma digit_not_space':
  "c \<in> set ''0123456789'' \<Longrightarrow> \<not> isspace (Some c) \<and> c \<noteq> CHR '')'' \<and> c \<noteq> CHR ''(''"
  by (elim disjE | simp only: set_simps insert_iff empty_iff)+ (simp_all add: isspace_def)

lemma special_not_space:
  "c \<in> set ''+-_<>=?*'' \<Longrightarrow> \<not> isspace (Some c) \<and> c \<noteq> CHR '')'' \<and> c \<noteq> CHR ''(''"
  by (elim disjE | simp only: set_simps insert_iff empty_iff)+ (simp_all add: isspace_def)

lemma symbol_char_not_space:
  "symbol_char c \<Longrightarrow> \<not> isspace (Some c) \<and> c \<noteq> CHR '')'' \<and> c \<noteq> CHR ''(''"
  by (erule symbol_char_cases) (blast dest: letter_not_space digit_not_space' special_not_space)+

lemma symbol_char_class: "symbol_char c \<Longrightarrow> isalnum (Some c) \<or> is_special (Some c)"
  by (auto simp: symbol_char_def is_special_def)

lemma symbol_char_start:
  "symbol_char c \<Longrightarrow> \<not> isdigit (Some c) \<Longrightarrow> isalpha (Some c) \<or> is_special (Some c)"
  by (auto simp: symbol_char_def is_special_def isalnum_def)

lemma read_symbol_loop_chars:
  "\<forall>c\<in>set nm. symbol_char c \<Longrightarrow> ends_token rest \<Longrightarrow>
   length buf + length nm \<le> SYMBOL_MAX_LENGTH \<Longrightarrow>
   read_symbol_loop buf (nm @ rest) = Inr (buf @ nm, rest)"
proof (induction nm arbitrary: buf)
  case Nil
  then show ?case by (cases rest) (simp_all add: ends_token_def)
next
  case (Cons c cs)
  from Cons.prems(1) have "isalnum (Some c) \<or> is_special (Some c)"
    by (simp add: symbol_char_class)
  moreover from Cons.prems(3) have "\<not> SYMBOL_MAX_LENGTH \<le> length buf" by simp
  moreover have "read_symbol_loop (buf @ [c]) (cs @ rest) = Inr ((buf @ [c]) @ cs, rest)"
    using Cons.IH[of "buf @ [c]"] Cons.prems by simp
  ultimately show ?case by simp
qed

lemma c_string_symbol: "\<forall>c\<in>set nm. symbol_char c \<Longrightarrow> c_string nm = nm"
  unfolding c_string_def
  by (rule takeWhile_eq_all_conv[THEN iffD2]) (auto simp: not_symbol_char_0)

lemma ends_token_not_digit: "ends_token rest \<Longrightarrow> \<not> isdigit (peek rest)"
  by (simp add: ends_token_def isalnum_def)

lemma read_bare_symbol:
  assumes nm: "bare_symbol nm" and rest: "ends_token rest"
  shows "read ip (Suc n) (nm @ rest) s =
     Inr (Ref (length (heap s)), rest, s\<lparr>heap := heap s @ [OSymbol nm]\<rparr>)"
proof -
  from nm obtain c cs where cc: "nm = c # cs" by (cases nm) (auto simp: bare_symbol_def)
  from nm have all: "\<forall>c\<in>set nm. symbol_char c" and len: "length nm \<le> SYMBOL_MAX_LENGTH"
    by (auto simp: bare_symbol_def)
  from all cc have sc: "symbol_char c" by simp
  from nm cc have nd: "\<not> isdigit (Some c)" by (simp add: bare_symbol_def)
  have nm': "\<not> (c = CHR ''-'' \<and> isdigit (peek (cs @ rest)))"
  proof (cases cs)
    case Nil
    with ends_token_not_digit[OF rest] show ?thesis by simp
  next
    case (Cons c' cs')
    with nm cc show ?thesis by (simp add: bare_symbol_def)
  qed
  have st: "isalpha (Some c) \<or> is_special (Some c)"
    using symbol_char_start[OF sc nd] .
  have rs: "read_symbol (c # cs @ rest) s =
      Inr (Ref (length (heap s)), rest, s\<lparr>heap := heap s @ [OSymbol nm]\<rparr>)"
    using read_symbol_loop_chars[OF all rest, of "[]"] len c_string_symbol[OF all]
    by (simp add: read_symbol_def cc new_object_def)
  have sp: "\<not> isspace (Some c)" using symbol_char_not_space[OF sc] by simp
  have "read ip (Suc n) (c # cs @ rest) s = read_symbol (c # cs @ rest) s"
  proof (cases "c = CHR ''-''")
    case True
    with nm' have "\<not> isdigit (peek (cs @ rest))" by simp
    with sp nd st show ?thesis by simp
  next
    case False
    with sp nd st show ?thesis by simp
  qed
  with rs show ?thesis by (simp add: cc)
qed

section \<open>Reading a printed integer\<close>

declare show_nat.simps [simp del]

lemma digit_char:
  assumes "d < 10"
  shows "isdigit (Some (''0123456789'' ! d)) \<and> of_char (''0123456789'' ! d) = (48::int) + int d"
proof -
  from assms have "d = 0 \<or> d = 1 \<or> d = 2 \<or> d = 3 \<or> d = 4 \<or> d = 5 \<or> d = 6
      \<or> d = 7 \<or> d = 8 \<or> d = 9"
    by arith
  then show ?thesis by (elim disjE) (simp_all add: isdigit_def)
qed

lemma decimal_snoc: "decimal (xs @ [c]) = decimal xs * 10 + (of_char c - 48)"
  by (simp add: decimal_def)

lemma show_nat_props:
  "(\<forall>c\<in>set (show_nat n). isdigit (Some c)) \<and> show_nat n \<noteq> [] \<and> decimal (show_nat n) = int n"
proof (induction n rule: show_nat.induct)
  case (1 n)
  show ?case
  proof (cases "n < 10")
    case True
    with digit_char[OF True] show ?thesis
      by (subst (1 2 3) show_nat.simps) (simp add: decimal_def)
  next
    case False
    have m: "n mod 10 < 10" by simp
    from False have s: "show_nat n = show_nat (n div 10) @ [''0123456789'' ! (n mod 10)]"
      by (subst show_nat.simps) simp
    have a: "int (n div 10) * 10 + int (n mod 10) = int n"
    proof -
      have "n div 10 * 10 + n mod 10 = n" by (rule div_mult_mod_eq)
      then have "int (n div 10 * 10 + n mod 10) = int n" by (rule arg_cong)
      then show ?thesis by (simp only: of_nat_add of_nat_mult of_nat_numeral)
    qed
    from "1.IH"[OF False] digit_char[OF m] a show ?thesis
      unfolding s by (simp add: decimal_snoc)
  qed
qed

lemma read_minus_digits:
  assumes ds: "ds \<noteq> []" "\<forall>c\<in>set ds. isdigit (Some c)" and rest: "\<not> isdigit (peek rest)"
  shows "read ip (Suc n) (CHR ''-'' # ds @ rest) s =
     Inr (Ref (length (heap s)), rest, s\<lparr>heap := heap s @ [OInt (int32 (- decimal ds))]\<rparr>)"
proof -
  from ds obtain d ds' where dd: "ds = d # ds'" by (cases ds) auto
  with ds have d: "isdigit (Some d)" by simp
  have pk: "isdigit (peek (ds @ rest))" using d by (simp add: dd)
  show ?thesis
    using read_number_digits[OF ds(2) rest, of False s] pk minus_class by simp
qed

lemma read_plain_digits:
  assumes ds: "ds \<noteq> []" "\<forall>c\<in>set ds. isdigit (Some c)" and rest: "\<not> isdigit (peek rest)"
  shows "read True (Suc n) (ds @ rest) s =
     Inr (Ref (length (heap s)), rest, s\<lparr>heap := heap s @ [OInt (int32 (decimal ds))]\<rparr>)"
proof -
  from ds obtain d ds' where dd: "ds = d # ds'" by (cases ds) auto
  with ds have d: "isdigit (Some d)" by simp
  have "read True (Suc n) (d # ds' @ rest) s = Inr (read_number True (d # ds' @ rest) s)"
    using d digit_not_space[OF d] by simp
  then show ?thesis
    using read_number_digits[OF ds(2) rest, of True s] by (simp add: dd)
qed

lemma read_show_int:
  assumes r: "- 2147483648 \<le> i" "i < 2147483648" and rest: "ends_token rest"
  shows "read True (Suc n) (show_int i @ rest) s =
     Inr (Ref (length (heap s)), rest, s\<lparr>heap := heap s @ [OInt i]\<rparr>)"
proof (cases "i < 0")
  case True
  let ?ds = "show_nat (nat (- i))"
  from show_nat_props[of "nat (- i)"] True have p: "?ds \<noteq> []" "\<forall>c\<in>set ?ds. isdigit (Some c)"
    and dec: "decimal ?ds = - i" by auto
  have "int32 (- decimal ?ds) = i" using dec r True by (simp add: int32_id)
  with read_minus_digits[OF p ends_token_not_digit[OF rest], of True n s] True
  show ?thesis by (simp add: show_int_def)
next
  case False
  let ?ds = "show_nat (nat i)"
  from show_nat_props[of "nat i"] False have p: "?ds \<noteq> []" "\<forall>c\<in>set ?ds. isdigit (Some c)"
    and dec: "decimal ?ds = i" by auto
  have "int32 (decimal ?ds) = i" using dec r False by (simp add: int32_id)
  with read_plain_digits[OF p ends_token_not_digit[OF rest], of n s] False
  show ?thesis by (simp add: show_int_def)
qed

section \<open>Texts of trees\<close>

lemma show_first:
  "readable t \<Longrightarrow> \<exists>c cs. show_sx t = c # cs \<and> \<not> isspace (Some c) \<and> c \<noteq> CHR '')''"
proof (cases t)
  case (SInt i)
  show ?thesis
  proof (cases "i < 0")
    case True
    with SInt show ?thesis by (simp add: show_int_def minus_class)
  next
    case False
    from show_nat_props[of "nat i"] obtain c cs where c: "show_nat (nat i) = c # cs"
      and d: "isdigit (Some c)"
      by (cases "show_nat (nat i)") auto
    from d have "c \<in> set ''0123456789''" by (simp add: isdigit_def)
    from digit_not_space'[OF this] c SInt False show ?thesis by (simp add: show_int_def)
  qed
next
  case (SSym nm)
  assume "readable t"
  with SSym obtain c cs where c: "nm = c # cs" and sc: "symbol_char c"
    by (cases nm) (auto simp: bare_symbol_def)
  from symbol_char_not_space[OF sc] c SSym show ?thesis by simp
next
  case SNil
  then show ?thesis by (simp add: isspace_def)
next
  case STrue
  then show ?thesis by (simp add: isspace_def)
next
  case (SList ts)
  assume "readable t"
  with SList obtain u us where "ts = u # us" by (cases ts) auto
  with SList show ?thesis by (simp add: isspace_def)
qed

lemma show_norm: "show_sx (norm t) = show_sx t"
proof (induction t)
  case (SList ts)
  have tl: "set us \<subseteq> set ts \<Longrightarrow> show_tail (map norm us) = show_tail us" for us
    using SList.IH by (induction us) auto
  show ?case
  proof (cases ts)
    case Nil
    then show ?thesis by simp
  next
    case (Cons u us)
    with SList.IH[of u] tl[of us] show ?thesis by auto
  qed
qed simp_all

section \<open>Trees and lists under construction in a growing heap\<close>

lemma reprb_agree:
  "reprb lo b h p t \<Longrightarrow>
   \<forall>a. lo \<le> a \<and> a < b \<and> a < length h \<longrightarrow> a < length h' \<and> h' ! a = h ! a \<Longrightarrow>
   reprb lo b h' p t"
  "reprb_list lo b h p ts \<Longrightarrow>
   \<forall>a. lo \<le> a \<and> a < b \<and> a < length h \<longrightarrow> a < length h' \<and> h' ! a = h ! a \<Longrightarrow>
   reprb_list lo b h' p ts"
  by (induction lo b h p t and lo b h p ts rule: reprb_reprb_list.induct)
     (auto split: ptr.splits obj.splits)

lemma reprb_mono:
  "reprb lo b h p t \<Longrightarrow> lo' \<le> lo \<Longrightarrow> b \<le> b' \<Longrightarrow> reprb lo' b' h p t"
  "reprb_list lo b h p ts \<Longrightarrow> lo' \<le> lo \<Longrightarrow> b \<le> b' \<Longrightarrow> reprb_list lo' b' h p ts"
  by (induction lo b h p t and lo b h p ts rule: reprb_reprb_list.induct)
     (auto split: ptr.splits obj.splits)

lemma reprb_append: "reprb lo b h p t \<Longrightarrow> reprb lo b (h @ h') p t"
  by (erule reprb_agree(1)) (simp add: nth_append)

lemma seg_single:
  "seg lo h p [u] l \<longleftrightarrow>
     p = Ref l \<and> lo \<le> l \<and> l < length h \<and> (\<exists>x. h ! l = OCons x NilP \<and> reprb lo l h x u)"
  by (auto split: obj.splits)

lemma seg_cons2:
  "seg lo h p (u # u' # us) l \<longleftrightarrow>
     (\<exists>a x a'. p = Ref a \<and> lo \<le> a \<and> a < length h \<and> a < l \<and> h ! a = OCons x (Ref a') \<and>
        reprb lo a h x u \<and> a < a' \<and> seg lo h (Ref a') (u' # us) l)"
  apply (auto split: ptr.splits obj.splits)
  subgoal for a x d by (cases d) auto
  done

declare seg.simps(2,3) [simp del]

lemma seg_bounds: "seg lo h p us l \<Longrightarrow> l < length h \<and> (\<exists>a. p = Ref a \<and> lo \<le> a \<and> a \<le> l)"
proof (induction lo h p us l rule: seg.induct)
  case (3 lo h p u u' us l)
  from "3.prems" obtain a x a' where p: "p = Ref a" "lo \<le> a" "a < length h" "a < l"
    "h ! a = OCons x (Ref a')" and s: "seg lo h (Ref a') (u' # us) l"
    by (auto simp: seg_cons2)
  from "3.IH"[OF p(1) p(5) s] p show ?case by simp
qed (auto simp: seg_single)

lemma seg_last: "seg lo h p us l \<Longrightarrow> \<exists>x. h ! l = OCons x NilP"
proof (induction lo h p us l rule: seg.induct)
  case (3 lo h p u u' us l)
  from "3.prems" obtain a x a' where p: "p = Ref a" "a < length h" "a < l"
    "h ! a = OCons x (Ref a')" and s: "seg lo h (Ref a') (u' # us) l"
    by (auto simp: seg_cons2)
  from "3.IH"[OF p(1) p(4) s] show ?case .
qed (auto simp: seg_single)

lemma seg_agree:
  "seg lo h p us l \<Longrightarrow>
   \<forall>a. lo \<le> a \<and> a \<le> l \<and> a < length h \<longrightarrow> a < length h' \<and> h' ! a = h ! a \<Longrightarrow>
   seg lo h' p us l"
proof (induction lo h p us l rule: seg.induct)
  case (1 lo h p l)
  then show ?case by simp
next
  case (2 lo h p u l)
  from "2.prems"(1) obtain x where l: "p = Ref l" "lo \<le> l" "l < length h" "h ! l = OCons x NilP"
    and r: "reprb lo l h x u"
    by (auto simp: seg_single)
  from "2.prems"(2)
  have ag: "\<forall>a. lo \<le> a \<and> a < l \<and> a < length h \<longrightarrow> a < length h' \<and> h' ! a = h ! a"
    by simp
  from reprb_agree(1)[OF r ag] l "2.prems"(2) show ?case by (auto simp: seg_single)
next
  case (3 lo h p u u' us l)
  from "3.prems"(1) obtain a x a' where p: "p = Ref a" "lo \<le> a" "a < length h" "a < l"
    "h ! a = OCons x (Ref a')" and r: "reprb lo a h x u" and aa: "a < a'"
    and s: "seg lo h (Ref a') (u' # us) l"
    by (auto simp: seg_cons2)
  from "3.prems"(2) p
  have ag: "\<forall>b. lo \<le> b \<and> b < a \<and> b < length h \<longrightarrow> b < length h' \<and> h' ! b = h ! b" by simp
  from "3.prems"(2) p have ha: "a < length h' \<and> h' ! a = h ! a" by simp
  from "3.IH"[OF p(1) p(5) s "3.prems"(2)] reprb_agree(1)[OF r ag] p aa ha
  show ?case by (auto simp: seg_cons2)
qed

lemma seg_append: "seg lo h p us l \<Longrightarrow> seg lo (h @ h') p us l"
  by (erule seg_agree) (simp add: nth_append)

lemma seg_reprb: "seg lo h p us l \<Longrightarrow> reprb_list lo (Suc l) h p us"
proof (induction lo h p us l rule: seg.induct)
  case (1 lo h p l)
  then show ?case by simp
next
  case (2 lo h p u l)
  from "2.prems"(1) obtain x where l: "p = Ref l" "lo \<le> l" "l < length h" "h ! l = OCons x NilP"
    and r: "reprb lo l h x u"
    by (auto simp: seg_single)
  from reprb_mono(1)[OF r, of lo "Suc l"] l show ?case by simp
next
  case (3 lo h p u u' us l)
  from "3.prems"(1) obtain a x a' where p: "p = Ref a" "lo \<le> a" "a < length h" "a < l"
    "h ! a = OCons x (Ref a')" and r: "reprb lo a h x u" and aa: "a < a'"
    and s: "seg lo h (Ref a') (u' # us) l"
    by (auto simp: seg_cons2)
  from reprb_mono(1)[OF r, of lo "Suc l"] p have r': "reprb lo (Suc l) h x u" by simp
  from "3.IH"[OF p(1) p(5) s] r' p show ?case by simp
qed

lemma seg_snoc:
  assumes "seg lo h p us l" and "reprb (Suc l) (length h) h x u" and "h ! l = OCons xl NilP"
  shows "seg lo ((h @ [OCons x NilP])[l := OCons xl (Ref (length h))]) p (us @ [u]) (length h)"
  using assms
proof (induction lo h p us l rule: seg.induct)
  case (1 lo h p l)
  then show ?case by simp
next
  case (2 lo h p u0 l)
  let ?h' = "(h @ [OCons x NilP])[l := OCons xl (Ref (length h))]"
  from "2.prems"(1,3) have l: "l < length h" "lo \<le> l" and p: "p = Ref l"
    and r: "reprb lo l h xl u0"
    by (auto simp: seg_single)
  have ag: "\<forall>a. lo \<le> a \<and> a < l \<and> a < length h \<longrightarrow> a < length ?h' \<and> ?h' ! a = h ! a"
    by (simp add: nth_append)
  have ag1: "\<forall>a. Suc l \<le> a \<and> a < length h \<and> a < length h \<longrightarrow> a < length ?h' \<and> ?h' ! a = h ! a"
    by (simp add: nth_append)
  have r0: "reprb lo l ?h' xl u0" using reprb_agree(1)[OF r ag] .
  have r1: "reprb lo (length h) ?h' x u"
    using reprb_mono(1)[OF reprb_agree(1)[OF "2.prems"(2) ag1], of lo "length h"] l by simp
  show ?case using l p r0 r1 by (simp add: nth_append seg_single seg_cons2)
next
  case (3 lo h p u0 u1 us l)
  let ?h' = "(h @ [OCons x NilP])[l := OCons xl (Ref (length h))]"
  from "3.prems"(1) obtain a x0 a' where p: "p = Ref a" "lo \<le> a" "a < length h" "a < l"
    "h ! a = OCons x0 (Ref a')" and r: "reprb lo a h x0 u0" and aa: "a < a'"
    and s: "seg lo h (Ref a') (u1 # us) l"
    by (auto simp: seg_cons2)
  from seg_bounds[OF s] have l: "l < length h" by simp
  have ag: "\<forall>b. lo \<le> b \<and> b < a \<and> b < length h \<longrightarrow> b < length ?h' \<and> ?h' ! b = h ! b"
    using p by (simp add: nth_append)
  have r0: "reprb lo a ?h' x0 u0" using reprb_agree(1)[OF r ag] .
  have ih: "seg lo ?h' (Ref a') ((u1 # us) @ [u]) (length h)"
    using "3.IH"[OF p(1) p(5) s "3.prems"(2,3)] .
  show ?case using p r0 aa ih l by (simp add: nth_append seg_cons2)
qed

section \<open>Reading a printed list\<close>

lemma paren_class:
  "\<not> isspace (Some CHR ''('')" "\<not> isdigit (Some CHR ''('')" "\<not> isalpha (Some CHR ''('')"
  "\<not> is_special (Some CHR ''('')"
  by (simp_all add: isspace_def isdigit_def isalpha_def is_special_def symbol_special_chars_def)

lemma space_class: "isspace (Some CHR '' '')"
  by (simp add: isspace_def)

lemma close_class: "\<not> isspace (Some CHR '')'')"
  by (simp add: isspace_def)

lemma ends_token_tail: "ends_token (show_tail vs @ CHR '')'' # rest)"
  by (cases vs)
     (simp_all add: ends_token_def isalnum_def isalpha_def isdigit_def is_special_def
        symbol_special_chars_def)

lemma read_list_loop_space:
  "read_list_loop ip (Suc k) fp lp (CHR '' '' # inp) s = read_list_loop ip k fp lp inp s"
  by (simp add: space_class)

lemma read_list_loop_close:
  "read_list_loop ip (Suc k) fp lp (CHR '')'' # inp) s = Inr (fp, inp, s)"
  by (simp add: close_class)

lemma read_list_loop_elem:
  "\<not> isspace (Some c) \<Longrightarrow> c \<noteq> CHR '')'' \<Longrightarrow>
   read_list_loop ip (Suc k) fp lp (c # inp) s =
     bnd (read ip k (c # inp) s) (\<lambda>(x, rest1, s1).
       (case cons x NilP s1 of
          (cell, s2) \<Rightarrow>
            if fp = NilP then read_list_loop ip k cell cell rest1 s2
            else bnd (set_cdr lp cell s2) (\<lambda>s3. read_list_loop ip k fp cell rest1 s3)))"
  by simp

lemma read_list_loop_elems:
  assumes el: "\<And>t. t \<in> set ts \<Longrightarrow> reads_back t"
  shows "set vs \<subseteq> set ts \<Longrightarrow> \<forall>t\<in>set vs. readable t \<Longrightarrow> seg lo (heap s) fp us l \<Longrightarrow>
     length (show_tail vs) + 1 < k \<Longrightarrow>
     \<exists>h l'. read_list_loop True k fp (Ref l) (show_tail vs @ CHR '')'' # rest) s
               = Inr (fp, rest, s\<lparr>heap := h\<rparr>)
         \<and> take lo h = take lo (heap s) \<and> length (heap s) \<le> length h
         \<and> seg lo h fp (us @ map norm vs) l'"
proof (induction vs arbitrary: s us l k)
  case Nil
  from Nil.prems(4) obtain k' where k: "k = Suc k'" by (cases k) auto
  have "read_list_loop True k fp (Ref l) (show_tail [] @ CHR '')'' # rest) s
          = Inr (fp, rest, s\<lparr>heap := heap s\<rparr>)"
    unfolding k by (simp add: read_list_loop_close del: read.simps read_list_loop.simps)
  with Nil.prems(3) show ?case by (intro exI[of _ "heap s"] exI[of _ l]) simp
next
  case (Cons v vs)
  let ?rest' = "show_tail vs @ CHR '')'' # rest"
  from Cons.prems(2) have rv: "readable v" by simp
  from show_first[OF rv] obtain c cs where sv: "show_sx v = c # cs"
    and c: "\<not> isspace (Some c)" "c \<noteq> CHR '')''" by auto
  define m where "m = k - 2"
  from Cons.prems(4) sv have k: "k = Suc (Suc m)" and m1: "length (show_sx v) < m"
    and m2: "length (show_tail vs) + 1 < m"
    by (simp_all add: m_def)
  from el Cons.prems(1) have "reads_back v" by simp
  with ends_token_tail[of vs rest] m1 obtain p h1
    where rd: "read True m (show_sx v @ ?rest') s = Inr (p, ?rest', s\<lparr>heap := heap s @ h1\<rparr>)"
      and rp: "reprb (length (heap s)) (length (heap s) + length h1) (heap s @ h1) p (norm v)"
    unfolding reads_back_def by blast
  from seg_bounds[OF Cons.prems(3)] obtain a where l: "l < length (heap s)"
    and fp: "fp = Ref a" "lo \<le> a" "a \<le> l" by auto
  from seg_last[OF Cons.prems(3)] obtain xl where xl: "heap s ! l = OCons xl NilP" by auto
  let ?H = "heap s @ h1"
  let ?h3 = "(?H @ [OCons p NilP])[l := OCons xl (Ref (length ?H))]"
  let ?s3 = "s\<lparr>heap := ?h3\<rparr>"
  have "read_list_loop True k fp (Ref l) (show_tail (v # vs) @ CHR '')'' # rest) s
          = read_list_loop True (Suc m) fp (Ref l) (c # cs @ ?rest') s"
    unfolding k using sv by (simp add: read_list_loop_space del: read.simps read_list_loop.simps)
  also have "\<dots> = read_list_loop True m fp (Ref (length ?H)) ?rest' ?s3"
    using rd fp l xl sv
    by (simp add: read_list_loop_elem[OF c] cons_def new_object_def set_cdr_def deref_def
        nth_append bnd_def del: read.simps read_list_loop.simps)
  finally have step: "read_list_loop True k fp (Ref l) (show_tail (v # vs) @ CHR '')'' # rest) s
          = read_list_loop True m fp (Ref (length ?H)) ?rest' ?s3" .
  have r1: "reprb (Suc l) (length ?H) ?H p (norm v)"
    using reprb_mono(1)[OF rp, of "Suc l" "length ?H"] l by simp
  have xl': "?H ! l = OCons xl NilP" using xl l by (simp add: nth_append)
  have sg: "seg lo (heap ?s3) fp (us @ [norm v]) (length ?H)"
    using seg_snoc[OF seg_append[OF Cons.prems(3), of h1] r1 xl'] by simp
  from Cons.prems(1,2) have sub: "set vs \<subseteq> set ts" "\<forall>t\<in>set vs. readable t" by simp_all
  from Cons.IH[OF sub sg m2] obtain h l'
    where rl: "read_list_loop True m fp (Ref (length ?H)) ?rest' ?s3 = Inr (fp, rest, ?s3\<lparr>heap := h\<rparr>)"
      and tk: "take lo h = take lo (heap ?s3)" and ln: "length (heap ?s3) \<le> length h"
      and sg': "seg lo h fp ((us @ [norm v]) @ map norm vs) l'"
    by blast
  have tk': "take lo h = take lo (heap s)" using tk fp l by simp
  have ln': "length (heap s) \<le> length h" using ln by simp
  from step rl have "read_list_loop True k fp (Ref l) (show_tail (v # vs) @ CHR '')'' # rest) s
      = Inr (fp, rest, s\<lparr>heap := h\<rparr>)" by simp
  with tk' ln' sg' show ?case by (intro exI[of _ h] exI[of _ l']) simp
qed

lemma bare_Nil_True: "bare_symbol ''Nil''" "bare_symbol ''True''"
  by (simp_all add: bare_symbol_def symbol_char_def isalnum_def isalpha_def isdigit_def
      peek_def SYMBOL_MAX_LENGTH_def)

lemma reads_back_symbol:
  assumes "bare_symbol nm" and "norm t = SSym nm" and "show_sx t = nm"
  shows "reads_back t"
  unfolding reads_back_def
proof (intro allI impI)
  fix rest and s :: state and k
  assume e: "ends_token rest" and k: "length (show_sx t) < k"
  then obtain n where n: "k = Suc n" by (cases k) auto
  have "reprb (length (heap s)) (length (heap s) + length [OSymbol nm])
          (heap s @ [OSymbol nm]) (Ref (length (heap s))) (norm t)"
    using assms(2) by simp
  with read_bare_symbol[OF assms(1) e, of True n s] assms(3) n
  show "\<exists>p h. read True k (show_sx t @ rest) s = Inr (p, rest, s\<lparr>heap := heap s @ h\<rparr>)
           \<and> reprb (length (heap s)) (length (heap s) + length h) (heap s @ h) p (norm t)"
    by (intro exI[of _ "Ref (length (heap s))"] exI[of _ "[OSymbol nm]"]) simp
qed

lemma reads_back_int:
  assumes "- 2147483648 \<le> i" "i < 2147483648"
  shows "reads_back (SInt i)"
  unfolding reads_back_def
proof (intro allI impI)
  fix rest and s :: state and k
  assume e: "ends_token rest" and k: "length (show_sx (SInt i)) < k"
  then obtain n where n: "k = Suc n" by (cases k) auto
  have "reprb (length (heap s)) (length (heap s) + length [OInt i])
          (heap s @ [OInt i]) (Ref (length (heap s))) (norm (SInt i))"
    by simp
  with read_show_int[OF assms e, of n s] n
  show "\<exists>p h. read True k (show_sx (SInt i) @ rest) s = Inr (p, rest, s\<lparr>heap := heap s @ h\<rparr>)
           \<and> reprb (length (heap s)) (length (heap s) + length h) (heap s @ h) p (norm (SInt i))"
    by (intro exI[of _ "Ref (length (heap s))"] exI[of _ "[OInt i]"]) simp
qed

lemma read_open:
  "read ip (Suc k) (CHR ''('' # inp) s = read_list_loop ip k NilP NilP inp s"
  by (simp add: paren_class del: read_list_loop.simps)

lemma read_list_loop_first:
  "\<not> isspace (Some c) \<Longrightarrow> c \<noteq> CHR '')'' \<Longrightarrow>
   read ip k (c # inp) s = Inr (x, rest1, s1) \<Longrightarrow>
   read_list_loop ip (Suc k) NilP NilP (c # inp) s =
     read_list_loop ip k (Ref (length (heap s1))) (Ref (length (heap s1))) rest1
       (s1\<lparr>heap := heap s1 @ [OCons x NilP]\<rparr>)"
  by (simp add: read_list_loop_elem cons_def new_object_def bnd_def
      del: read.simps read_list_loop.simps)

lemma reads_back_list:
  assumes el: "\<And>t. t \<in> set (v # vs) \<Longrightarrow> reads_back t"
    and rd: "\<forall>t\<in>set (v # vs). readable t"
  shows "reads_back (SList (v # vs))"
  unfolding reads_back_def
proof (intro allI impI)
  fix rest and s :: state and k
  assume e: "ends_token rest" and k: "length (show_sx (SList (v # vs))) < k"
  let ?rest' = "show_tail vs @ CHR '')'' # rest"
  let ?B = "length (heap s)"
  from rd have rv: "readable v" by simp
  from show_first[OF rv] obtain c cs where sv: "show_sx v = c # cs"
    and c: "\<not> isspace (Some c)" "c \<noteq> CHR '')''" by auto
  define m where "m = k - 2"
  from k sv have km: "k = Suc (Suc m)" and m1: "length (show_sx v) < m"
    and m2: "length (show_tail vs) + 1 < m"
    by (simp_all add: m_def)
  from el have "reads_back v" by simp
  with ends_token_tail[of vs rest] m1 obtain p h1
    where r1: "read True m (show_sx v @ ?rest') s = Inr (p, ?rest', s\<lparr>heap := heap s @ h1\<rparr>)"
      and rp: "reprb ?B (?B + length h1) (heap s @ h1) p (norm v)"
    unfolding reads_back_def by blast
  let ?H = "heap s @ h1"
  let ?s2 = "s\<lparr>heap := ?H @ [OCons p NilP]\<rparr>"
  have step: "read True k (show_sx (SList (v # vs)) @ rest) s
      = read_list_loop True m (Ref (length ?H)) (Ref (length ?H)) ?rest' ?s2"
    unfolding km using read_list_loop_first[OF c, of True m "cs @ ?rest'" s p ?rest'
        "s\<lparr>heap := ?H\<rparr>"] r1 sv
    by (simp add: read_open del: read.simps read_list_loop.simps)
  have sg: "seg ?B (heap ?s2) (Ref (length ?H)) [norm v] (length ?H)"
    using reprb_append[OF rp, of "[OCons p NilP]"] by (simp add: seg_single)
  have sub: "set vs \<subseteq> set (v # vs)" "\<forall>t\<in>set vs. readable t" using rd by auto
  from read_list_loop_elems[OF el sub sg m2, of rest] obtain h l'
    where rl: "read_list_loop True m (Ref (length ?H)) (Ref (length ?H)) ?rest' ?s2
                 = Inr (Ref (length ?H), rest, ?s2\<lparr>heap := h\<rparr>)"
      and tk: "take ?B h = take ?B (heap ?s2)" and ln: "length (heap ?s2) \<le> length h"
      and sg': "seg ?B h (Ref (length ?H)) ([norm v] @ map norm vs) l'"
    by blast
  from tk have "take ?B h = heap s" by simp
  then have h: "h = heap s @ drop ?B h" by (metis append_take_drop_id)
  from seg_bounds[OF sg'] have l': "l' < length h" by simp
  have "reprb ?B (length h) h (Ref (length ?H)) (norm (SList (v # vs)))"
    using reprb_mono(2)[OF seg_reprb[OF sg'], of ?B "length h"] l' by simp
  with h have "reprb ?B (?B + length (drop ?B h)) (heap s @ drop ?B h) (Ref (length ?H))
      (norm (SList (v # vs)))"
    using ln by simp
  moreover from step rl h
  have "read True k (show_sx (SList (v # vs)) @ rest) s
      = Inr (Ref (length ?H), rest, s\<lparr>heap := heap s @ drop ?B h\<rparr>)" by simp
  ultimately
  show "\<exists>p h. read True k (show_sx (SList (v # vs)) @ rest) s = Inr (p, rest, s\<lparr>heap := heap s @ h\<rparr>)
           \<and> reprb (length (heap s)) (length (heap s) + length h) (heap s @ h) p
               (norm (SList (v # vs)))"
    by blast
qed

lemma readable_reads_back: "readable t \<Longrightarrow> reads_back t"
proof (induction t)
  case (SInt i)
  then show ?case by (simp add: reads_back_int)
next
  case (SSym nm)
  then show ?case by (simp add: reads_back_symbol[of nm])
next
  case SNil
  show ?case by (rule reads_back_symbol[OF bare_Nil_True(1)]) simp_all
next
  case STrue
  show ?case by (rule reads_back_symbol[OF bare_Nil_True(2)]) simp_all
next
  case (SList ts)
  from SList.prems obtain v vs where ts: "ts = v # vs" by (cases ts) auto
  show ?case unfolding ts
    by (rule reads_back_list) (use SList ts in auto)
qed

section \<open>Printing, reading and printing again\<close>

text \<open>
  C2. Let the value \<open>v\<close> be a tree of integers, symbols, \<^verbatim>\<open>Nil\<close>, \<^verbatim>\<open>True\<close> and
  chains of pairs that end in \<^verbatim>\<open>Nil\<close>, where every integer has a magnitude below
  \<open>2 ^ 31\<close> and
  every symbol has a name of 1 to 128 letters, digits and characters of
  \<^verbatim>\<open>+-_<>=?*\<close> that starts neither with a digit nor with a minus sign before a
  digit. With the sign flag of the digit branch of \<^verbatim>\<open>read\<close> not zero, and a bound
  on the loops above the length of the text, printing \<open>v\<close> writes the text of the
  tree, and printing what \<^verbatim>\<open>read\<close> returns for that text writes the same text
  again. Both runs return: the statement gives their results, not only a relation
  between them.
\<close>

theorem print_read_print:
  assumes "repr s v t" and "readable t" and "length (show_sx t) < k"
  shows "printed k v s = Inr (show_sx t) \<and> reprint True k v s = Inr (show_sx t)"
proof -
  from assms(1) have "reprb 0 (length (heap s)) (heap (s\<lparr>out := []\<rparr>)) v t"
    by (simp add: repr_def)
  from print_repr[OF this assms(3)] have p: "printed k v s = Inr (show_sx t)"
    by (simp add: printed_def printf_def)
  have e: "ends_token []"
    by (simp add: ends_token_def peek_def getchar_def isalnum_def isalpha_def isdigit_def
        is_special_def)
  from readable_reads_back[OF assms(2)] e assms(3) obtain p' h
    where rd: "read True k (show_sx t) s = Inr (p', [], s\<lparr>heap := heap s @ h\<rparr>)"
      and rp: "reprb (length (heap s)) (length (heap s) + length h) (heap s @ h) p' (norm t)"
    unfolding reads_back_def by force
  from rp have "reprb (length (heap s)) (length (heap s) + length h)
      (heap (s\<lparr>heap := heap s @ h, out := []\<rparr>)) p' (norm t)"
    by simp
  from print_repr[OF this, of k] assms(3)
  have "printed k p' (s\<lparr>heap := heap s @ h\<rparr>) = Inr (show_sx t)"
    by (simp add: printed_def printf_def show_norm)
  with p rd show ?thesis by (simp add: reprint_def)
qed

text \<open>
  A symbol is a value too when its name has a space, as the one that \<^verbatim>\<open>read\<close>
  returns for the text \<^verbatim>\<open>a b\<close> between double quotes. It is printed as \<^verbatim>\<open>a b\<close>; read back, that text
  gives the symbol \<^verbatim>\<open>a\<close>, which is printed as \<^verbatim>\<open>a\<close>.
\<close>

theorem symbol_with_space_not_reprinted: "printed 2 (fst (load [CHR 0x22, CHR ''a'', CHR '' '', CHR ''b'', CHR 0x22]))
     (snd (load [CHR 0x22, CHR ''a'', CHR '' '', CHR ''b'', CHR 0x22])) = Inr ''a b''
   \<and> reprint True 2 (fst (load [CHR 0x22, CHR ''a'', CHR '' '', CHR ''b'', CHR 0x22]))
     (snd (load [CHR 0x22, CHR ''a'', CHR '' '', CHR ''b'', CHR 0x22])) = Inr ''a''"
  by code_simp

theorem print_read_print_witness:
  "printed 17 (fst (load ''(ab (1 -22) Nil)'')) (snd (load ''(ab (1 -22) Nil)''))
     = Inr ''(ab (1 -22) Nil)''
   \<and> reprint True 17 (fst (load ''(ab (1 -22) Nil)'')) (snd (load ''(ab (1 -22) Nil)''))
     = Inr ''(ab (1 -22) Nil)''"
proof -
  have 1: "repr (snd (load ''(ab (1 -22) Nil)'')) (fst (load ''(ab (1 -22) Nil)''))
      (SList [SSym ''ab'', SList [SInt 1, SInt (- 22)], SSym ''Nil''])"
    by code_simp
  have 2: "readable (SList [SSym ''ab'', SList [SInt 1, SInt (- 22)], SSym ''Nil''])"
    by code_simp
  have 3: "length (show_sx (SList [SSym ''ab'', SList [SInt 1, SInt (- 22)], SSym ''Nil''])) < 17"
    by code_simp
  have 4: "show_sx (SList [SSym ''ab'', SList [SInt 1, SInt (- 22)], SSym ''Nil''])
      = ''(ab (1 -22) Nil)''"
    by code_simp
  show ?thesis
    using print_read_print[OF 1 2 3] unfolding 4 .
qed

end
